theory Spec2Isabelle
  imports Complex_Main
begin

section \<open>Batching: \<open>grouper\<close> (mnist.py)\<close>

text \<open>
  \<^verbatim>\<open>
  def grouper(n, iterable, fillvalue=None):
      allres = []
      currlist = []
      for x in iterable:
          currlist.append(x)
          if len(currlist) == n:
              allres.append(currlist)
              currlist = []
      if len(currlist) < n:
          for i in range(len(currlist), n):
              currlist.append(fillvalue)
          allres.append(currlist)
      return allres
  \<close>
  The group size \<open>n\<close> is a Python integer (it comes from the command line), so it is an
  \<open>int\<close> here and may be zero or negative. The loop over the iterable is
  \<open>grouper_loop\<close>, carrying \<open>allres\<close> and \<open>currlist\<close>. The default fill value
  \<open>None\<close> is passed explicitly: a caller that pads with \<open>None\<close> works on
  \<open>'a option\<close> elements.
\<close>

fun grouper_loop :: "int \<Rightarrow> 'a list \<Rightarrow> 'a list list \<Rightarrow> 'a list \<Rightarrow> 'a list list \<times> 'a list" where
  "grouper_loop n [] allres currlist = (allres, currlist)"
| "grouper_loop n (x # xs) allres currlist =
     (let c = currlist @ [x]
      in if int (length c) = n then grouper_loop n xs (allres @ [c]) []
         else grouper_loop n xs allres c)"

definition grouper :: "int \<Rightarrow> 'a list \<Rightarrow> 'a \<Rightarrow> 'a list list" where
  "grouper n iterable fillvalue =
     (case grouper_loop n iterable [] [] of
        (allres, currlist) \<Rightarrow>
          if int (length currlist) < n
          then allres @ [currlist @ replicate (nat (n - int (length currlist))) fillvalue]
          else allres)"

section \<open>The computation graph (mnist.py)\<close>

text \<open>
  Python floats are modelled as reals: rounding, overflow, infinities and NaN are outside
  the model. Exceptions of the source are values of type \<open>error\<close>.
\<close>

datatype error = ValueError | ZeroDivisionError | IndexError

text \<open>
  The classes \<open>Const\<close>, \<open>Value\<close>, \<open>UnaryValue\<close> and \<open>BinaryValue\<close>. The subclasses of
  \<open>UnaryValue\<close> (\<open>PowValue\<close> with its exponent, \<open>ReluValue\<close>, \<open>LogValue\<close>, \<open>ExpValue\<close>) and
  of \<open>BinaryValue\<close> (\<open>AddValue\<close>, \<open>MulValue\<close>, \<open>Max\<close>) are tags. The operand fields
  \<open>_prev0\<close>, \<open>_prev1\<close> and \<open>_const_data\<close> are immutable after construction, so an object
  is its identity (a natural number) together with its operands; the mutable fields
  \<open>data\<close>, \<open>grad\<close> and \<open>_visited\<close> live in the state, keyed by identity. Two references to
  one Python object are two occurrences of a node with the same identity.
\<close>

datatype unary_class = PowValue real | ReluValue | LogValue | ExpValue

datatype binary_class = AddValue | MulValue | MaxValue

datatype node =
    Const nat real
  | Value nat
  | UnaryValue nat unary_class node
  | BinaryValue nat binary_class node node

fun ident :: "node \<Rightarrow> nat" where
  "ident (Const i d) = i"
| "ident (Value i) = i"
| "ident (UnaryValue i c a) = i"
| "ident (BinaryValue i c a b) = i"

text \<open>
  The state: the mutable fields of every object, the allocation counter that gives a new
  object its identity, and the module-level generator \<open>random\<close> as the sequence of the
  values its next calls of \<open>random()\<close> return (\<open>rrandom.Random\<close> is not part of the
  repository).
\<close>

record state =
  data :: "nat \<Rightarrow> real"
  grad :: "nat \<Rightarrow> real"
  visited :: "nat \<Rightarrow> bool"
  next_id :: nat
  rng :: "nat \<Rightarrow> real"

definition set_data :: "nat \<Rightarrow> real \<Rightarrow> state \<Rightarrow> state" where
  "set_data i v s = s\<lparr>data := (data s)(i := v)\<rparr>"

definition set_grad :: "nat \<Rightarrow> real \<Rightarrow> state \<Rightarrow> state" where
  "set_grad i v s = s\<lparr>grad := (grad s)(i := v)\<rparr>"

text \<open>\<open>x.grad += v\<close>\<close>

definition add_grad :: "nat \<Rightarrow> real \<Rightarrow> state \<Rightarrow> state" where
  "add_grad i v s = s\<lparr>grad := (grad s)(i := grad s i + v)\<rparr>"

text \<open>\<open>get_data\<close>: \<open>_const_data\<close> for a \<open>Const\<close>, the field \<open>data\<close> otherwise.\<close>

fun get_data :: "node \<Rightarrow> state \<Rightarrow> real" where
  "get_data (Const i d) s = d"
| "get_data (Value i) s = data s i"
| "get_data (UnaryValue i c a) s = data s i"
| "get_data (BinaryValue i c a b) s = data s i"

text \<open>
  \<open>math.log\<close> raises \<open>ValueError\<close> outside its domain. \<open>math.pow(x, y)\<close> raises
  \<open>ValueError\<close> for a zero base with a negative exponent and for a negative base with a
  non-integral exponent.
\<close>

definition math_log :: "real \<Rightarrow> error + real" where
  "math_log x = (if x \<le> 0 then Inl ValueError else Inr (ln x))"

definition math_pow :: "real \<Rightarrow> real \<Rightarrow> error + real" where
  "math_pow x y =
     (if x = 0 \<and> y < 0 then Inl ValueError
      else if y = of_int \<lfloor>y\<rfloor> then Inr (x powi \<lfloor>y\<rfloor>)
      else if x < 0 then Inl ValueError
      else Inr (x powr y))"

subsection \<open>The forward and backward rule of each class\<close>

text \<open>
  \<^verbatim>\<open>
  AddValue._forward:   self.data = self._prev0.get_data() + self._prev1.get_data()
  MulValue._forward:   self.data = self._prev0.get_data() * self._prev1.get_data()
  PowValue._forward:   self.data = math.pow(self._prev0.get_data(), self.exponent)
  ReluValue._forward:  self.data = (self._prev0.get_data() > 0) * self._prev0.get_data()
  LogValue._forward:   self.data = math.log(self._prev0.get_data())
  ExpValue._forward:   self.data = math.exp(self._prev0.get_data())
  Max._forward:        left_bigger = float(leftdata > rightdata)
                       self.data = left_bigger * leftdata + (1.0 - left_bigger) * rightdata
  BaseValue._forward:  pass
  \<close>
\<close>

fun node_forward :: "node \<Rightarrow> state \<Rightarrow> error + state" where
  "node_forward (Const i d) s = Inr s"
| "node_forward (Value i) s = Inr s"
| "node_forward (BinaryValue i AddValue a b) s = Inr (set_data i (get_data a s + get_data b s) s)"
| "node_forward (BinaryValue i MulValue a b) s = Inr (set_data i (get_data a s * get_data b s) s)"
| "node_forward (UnaryValue i (PowValue exponent) a) s =
     (case math_pow (get_data a s) exponent of
        Inl e \<Rightarrow> Inl e
      | Inr v \<Rightarrow> Inr (set_data i v s))"
| "node_forward (UnaryValue i ReluValue a) s =
     Inr (set_data i (of_bool (get_data a s > 0) * get_data a s) s)"
| "node_forward (UnaryValue i LogValue a) s =
     (case math_log (get_data a s) of
        Inl e \<Rightarrow> Inl e
      | Inr v \<Rightarrow> Inr (set_data i v s))"
| "node_forward (UnaryValue i ExpValue a) s = Inr (set_data i (exp (get_data a s)) s)"
| "node_forward (BinaryValue i MaxValue left right) s =
     (let leftdata = get_data left s;
          rightdata = get_data right s;
          left_bigger = of_bool (leftdata > rightdata)
      in Inr (set_data i (left_bigger * leftdata + (1 - left_bigger) * rightdata) s))"

text \<open>
  \<^verbatim>\<open>
  AddValue._backward(out):  self, other = out._prev0, out._prev1
                            self.grad += out.grad
                            other.grad += out.grad
  MulValue._backward(out):  self.grad += other.get_data() * out.grad
                            other.grad += self.get_data() * out.grad
  PowValue._backward(out):  self.grad += (out.exponent * math.pow(self.get_data(), out.exponent - 1)) * out.grad
  ReluValue._backward(out): self.grad += (out.get_data() > 0) * out.grad
  LogValue._backward(out):  self.grad += 1/self.get_data() * out.grad
  ExpValue._backward(out):  self.grad += math.exp(self.get_data()) * out.grad
  Max._backward(self):      left_bigger = float(leftdata > rightdata)
                            left.grad += left_bigger * self.grad
                            right.grad += (1.0 - left_bigger) * self.grad
  BaseValue._backward:      pass
  \<close>
  Each statement reads \<open>out.grad\<close> when it runs, so the second statement of a binary rule
  reads the state the first one left.
\<close>

fun node_backward :: "node \<Rightarrow> state \<Rightarrow> error + state" where
  "node_backward (Const i d) s = Inr s"
| "node_backward (Value i) s = Inr s"
| "node_backward (BinaryValue i AddValue a b) s =
     (let s1 = add_grad (ident a) (grad s i) s
      in Inr (add_grad (ident b) (grad s1 i) s1))"
| "node_backward (BinaryValue i MulValue a b) s =
     (let s1 = add_grad (ident a) (get_data b s * grad s i) s
      in Inr (add_grad (ident b) (get_data a s1 * grad s1 i) s1))"
| "node_backward (UnaryValue i (PowValue exponent) a) s =
     (case math_pow (get_data a s) (exponent - 1) of
        Inl e \<Rightarrow> Inl e
      | Inr p \<Rightarrow> Inr (add_grad (ident a) ((exponent * p) * grad s i) s))"
| "node_backward (UnaryValue i ReluValue a) s =
     Inr (add_grad (ident a) (of_bool (data s i > 0) * grad s i) s)"
| "node_backward (UnaryValue i LogValue a) s =
     (if get_data a s = 0 then Inl ZeroDivisionError
      else Inr (add_grad (ident a) (1 / get_data a s * grad s i) s))"
| "node_backward (UnaryValue i ExpValue a) s =
     Inr (add_grad (ident a) (exp (get_data a s) * grad s i) s)"
| "node_backward (BinaryValue i MaxValue left right) s =
     (let leftdata = get_data left s;
          rightdata = get_data right s;
          left_bigger = of_bool (leftdata > rightdata);
          s1 = add_grad (ident left) (left_bigger * grad s i) s
      in Inr (add_grad (ident right) ((1 - left_bigger) * grad s1 i) s1))"

subsection \<open>Topological order and the backward pass of \<open>BaseValue\<close>\<close>

text \<open>
  \<^verbatim>\<open>
  def topo(self):
      topo = []
      self._build_topo(topo)
      return topo

  def _build_topo(self, topo):            # BaseValue
      if not self._visited:
          self._visited = True
          self._build_topo_recurse(topo)  # pass; _prev0; _prev0 then _prev1
          topo.append(self)

  def _build_topo(self, _): pass          # Const
  \<close>
  The flag \<open>_visited\<close> is never cleared by the source.
\<close>

definition mark_visited :: "nat \<Rightarrow> state \<Rightarrow> state" where
  "mark_visited i s = s\<lparr>visited := (visited s)(i := True)\<rparr>"

fun build_topo :: "node \<Rightarrow> node list \<times> state \<Rightarrow> node list \<times> state" where
  "build_topo (Const i d) (topo, s) = (topo, s)"
| "build_topo (Value i) (topo, s) =
     (if visited s i then (topo, s)
      else (topo @ [Value i], mark_visited i s))"
| "build_topo (UnaryValue i c a) (topo, s) =
     (if visited s i then (topo, s)
      else (case build_topo a (topo, mark_visited i s) of
              (topo', s') \<Rightarrow> (topo' @ [UnaryValue i c a], s')))"
| "build_topo (BinaryValue i c a b) (topo, s) =
     (if visited s i then (topo, s)
      else (case build_topo b (build_topo a (topo, mark_visited i s)) of
              (topo', s') \<Rightarrow> (topo' @ [BinaryValue i c a b], s')))"

definition topo :: "node \<Rightarrow> state \<Rightarrow> node list \<times> state" where
  "topo self s = build_topo self ([], s)"

text \<open>\<open>for v in vs: v._forward()\<close> and \<open>for v in vs: v._backward()\<close>; an exception ends the loop.\<close>

fun run_forward :: "node list \<Rightarrow> state \<Rightarrow> error + state" where
  "run_forward [] s = Inr s"
| "run_forward (v # vs) s =
     (case node_forward v s of
        Inl e \<Rightarrow> Inl e
      | Inr s' \<Rightarrow> run_forward vs s')"

fun run_backward :: "node list \<Rightarrow> state \<Rightarrow> error + state" where
  "run_backward [] s = Inr s"
| "run_backward (v # vs) s =
     (case node_backward v s of
        Inl e \<Rightarrow> Inl e
      | Inr s' \<Rightarrow> run_backward vs s')"

text \<open>
  \<^verbatim>\<open>
  def backward(self):
      topo = self.topo()
      self.grad = 1
      for v in reversed(topo):
          v._backward()
  \<close>
\<close>

definition backward :: "node \<Rightarrow> state \<Rightarrow> error + state" where
  "backward self s =
     (case topo self s of
        (order, s1) \<Rightarrow> run_backward (rev order) (set_grad (ident self) 1 s1))"


text \<open>
  The backward evaluator as the specification words it (section 4.2): the gradient of the
  root is set to 1 and the gradient of every other node to 0 before the rules run. It is
  compared with \<open>backward\<close> below.
\<close>

definition backward_as_specified :: "node \<Rightarrow> state \<Rightarrow> error + state" where
  "backward_as_specified self s =
     (case topo self s of
        (t, s1) \<Rightarrow>
          run_backward (rev t) (s1\<lparr>grad := (\<lambda>i. if i = ident self then 1 else 0)\<rparr>))"

subsection \<open>Graph structure: operands, reachable nodes, identities\<close>

text \<open>
  \<open>prev\<close> lists the operands of a node (\<open>_prev0\<close>, \<open>_prev1\<close>) and \<open>subnodes\<close> is the set
  of nodes reachable from a node, itself included. A graph of Python objects has
  \<open>unique_ids\<close>: two reachable nodes with the same identity are the same object.
  \<open>postorder\<close> is the post-order traversal of the operand tree, left operand first, without
  the \<open>Const\<close> nodes; \<open>first_visits V\<close> keeps the first occurrence of every identity that
  is not in \<open>V\<close>. \<open>topo_sorted seen xs\<close> says that every node of \<open>xs\<close> comes after its
  operands that are not \<open>Const\<close> nodes (or finds them in \<open>seen\<close>).
\<close>

fun prev :: "node \<Rightarrow> node list" where
  "prev (Const i d) = []"
| "prev (Value i) = []"
| "prev (UnaryValue i c a) = [a]"
| "prev (BinaryValue i c a b) = [a, b]"

fun is_Const :: "node \<Rightarrow> bool" where
  "is_Const (Const i d) = True"
| "is_Const (Value i) = False"
| "is_Const (UnaryValue i c a) = False"
| "is_Const (BinaryValue i c a b) = False"

fun subnodes :: "node \<Rightarrow> node set" where
  "subnodes (Const i d) = {Const i d}"
| "subnodes (Value i) = {Value i}"
| "subnodes (UnaryValue i c a) = insert (UnaryValue i c a) (subnodes a)"
| "subnodes (BinaryValue i c a b) = insert (BinaryValue i c a b) (subnodes a \<union> subnodes b)"

definition unique_ids :: "node set \<Rightarrow> bool" where
  "unique_ids U = (\<forall>x\<in>U. \<forall>y\<in>U. ident x = ident y \<longrightarrow> x = y)"

fun postorder :: "node \<Rightarrow> node list" where
  "postorder (Const i d) = []"
| "postorder (Value i) = [Value i]"
| "postorder (UnaryValue i c a) = postorder a @ [UnaryValue i c a]"
| "postorder (BinaryValue i c a b) = postorder a @ postorder b @ [BinaryValue i c a b]"

fun first_visits :: "nat set \<Rightarrow> node list \<Rightarrow> node list" where
  "first_visits V [] = []"
| "first_visits V (x # xs) =
     (if ident x \<in> V then first_visits V xs
      else x # first_visits (insert (ident x) V) xs)"

definition visit_all :: "node list \<Rightarrow> state \<Rightarrow> state" where
  "visit_all xs s = s\<lparr>visited := (\<lambda>i. visited s i \<or> i \<in> ident ` set xs)\<rparr>"

definition visited_set :: "state \<Rightarrow> nat set" where
  "visited_set s = {i. visited s i}"

definition marks_closed :: "state \<Rightarrow> node \<Rightarrow> bool" where
  "marks_closed s n = (\<forall>x\<in>set (postorder n). visited s (ident x) \<longrightarrow>
      (\<forall>y\<in>set (postorder x). visited s (ident y)))"

fun topo_sorted :: "node set \<Rightarrow> node list \<Rightarrow> bool" where
  "topo_sorted seen [] = True"
| "topo_sorted seen (x # xs) =
     ((\<forall>a\<in>set (prev x). \<not> is_Const a \<longrightarrow> a \<in> seen) \<and> topo_sorted (insert x seen) xs)"

text \<open>The state of a program that has created no object yet.\<close>

definition empty_state :: state where
  "empty_state = \<lparr>data = (\<lambda>i. 0), grad = (\<lambda>i. 0), visited = (\<lambda>i. False), next_id = 0, rng = (\<lambda>k. 0)\<rparr>"

subsection \<open>What a backward rule adds to a gradient\<close>

text \<open>
  \<open>contribution c s g n\<close> is the amount the table of backward rules says node \<open>c\<close> adds to
  the gradient of the object with identity \<open>n\<close>, when the gradient of \<open>c\<close> is \<open>g\<close>: the
  right-hand sides of the \<open>+=\<close> statements, summed over the operands that are \<open>n\<close>.
  \<open>no_later_use\<close> holds of a processing order in which no node is an operand of itself or
  of a node processed after it.
\<close>

fun contribution :: "node \<Rightarrow> state \<Rightarrow> real \<Rightarrow> nat \<Rightarrow> real" where
  "contribution (Const i d) s g n = 0"
| "contribution (Value i) s g n = 0"
| "contribution (BinaryValue i AddValue a b) s g n =
     (if n = ident a then g else 0) + (if n = ident b then g else 0)"
| "contribution (BinaryValue i MulValue a b) s g n =
     (if n = ident a then get_data b s * g else 0) + (if n = ident b then get_data a s * g else 0)"
| "contribution (UnaryValue i (PowValue exponent) a) s g n =
     (if n = ident a
      then (case math_pow (get_data a s) (exponent - 1) of
              Inl e \<Rightarrow> 0
            | Inr p \<Rightarrow> (exponent * p) * g)
      else 0)"
| "contribution (UnaryValue i ReluValue a) s g n =
     (if n = ident a then of_bool (data s i > 0) * g else 0)"
| "contribution (UnaryValue i LogValue a) s g n =
     (if n = ident a then 1 / get_data a s * g else 0)"
| "contribution (UnaryValue i ExpValue a) s g n =
     (if n = ident a then exp (get_data a s) * g else 0)"
| "contribution (BinaryValue i MaxValue a b) s g n =
     (if n = ident a then of_bool (get_data a s > get_data b s) * g else 0)
     + (if n = ident b then (1 - of_bool (get_data a s > get_data b s)) * g else 0)"

definition operand_ids :: "node list \<Rightarrow> nat set" where
  "operand_ids xs = (\<Union>x\<in>set xs. ident ` set (prev x))"

fun no_later_use :: "node list \<Rightarrow> bool" where
  "no_later_use [] = True"
| "no_later_use (c # cs) = (ident c \<notin> operand_ids (c # cs) \<and> no_later_use cs)"

text \<open>\<open>shift_grad d s\<close> adds \<open>d n\<close> to every gradient of \<open>s\<close>.\<close>

definition shift_grad :: "(nat \<Rightarrow> real) \<Rightarrow> state \<Rightarrow> state" where
  "shift_grad d s = s\<lparr>grad := (\<lambda>n. grad s n + d n)\<rparr>"

section \<open>The engine of engine.py\<close>

text \<open>
  engine.py has one class \<open>Value\<close> (and its subclass \<open>Max\<close>): a constant operand is
  wrapped into a \<open>Value\<close> leaf, there is no \<open>Const\<close> class. Its graphs are therefore the
  nodes of the datatype above without a \<open>Const\<close> node (\<open>no_Const\<close>), with the fields
  \<open>data\<close> and \<open>grad\<close> in the same state; \<open>_prev\<close> is \<open>prev\<close>. The class is modelled
  as its methods describe it, \<open>_backward\<close> being a field of each object that holds the
  closure built by the operation.

  \<^verbatim>\<open>
  def backward(self):
      topo = []
      visited = set()
      def build_topo(v):
          if v not in visited:
              visited.add(v)
              for child in v._prev:
                  build_topo(child)
              topo.append(v)
      build_topo(self)
      self.grad = 1
      for v in reversed(topo):
          v._backward()
  \<close>
  \<open>engine_build_topo\<close> carries the set \<open>visited\<close> (of identities: \<open>Value\<close> defines no
  \<open>__eq__\<close>) and the list \<open>topo\<close>, both local to one call of \<open>backward\<close>.
\<close>

function engine_build_topo :: "node \<Rightarrow> nat set \<times> node list \<Rightarrow> nat set \<times> node list" where
  "engine_build_topo v (seen, topo_list) =
     (if ident v \<in> seen then (seen, topo_list)
      else (case fold engine_build_topo (prev v) (insert (ident v) seen, topo_list) of
              (seen', topo_list') \<Rightarrow> (seen', topo_list' @ [v])))"
  by pat_completeness auto
termination
proof (relation "measure (\<lambda>(v, acc). size v)")
  show "wf (measure (\<lambda>(v, acc). size v))" by simp
next
  fix v :: node and seen :: "nat set" and topo_list :: "node list" and x :: node
    and y :: "nat set \<times> node list"
  assume "x \<in> set (prev v)"
  then have "size x < size v" by (cases v) auto
  then show "((x, y), v, seen, topo_list) \<in> measure (\<lambda>(v, acc). size v)" by simp
qed

declare engine_build_topo.simps [simp del]

text \<open>
  \<open>x ** y\<close> on floats (the file has \<open>from __future__ import division\<close>, so it is written for
  Python 2): \<open>ZeroDivisionError\<close> for a zero base and a negative exponent, \<open>ValueError\<close> for
  a negative base and an exponent that is not an integer.
\<close>

definition py_pow :: "real \<Rightarrow> real \<Rightarrow> error + real" where
  "py_pow x y =
     (if x = 0 \<and> y < 0 then Inl ZeroDivisionError
      else if y = of_int \<lfloor>y\<rfloor> then Inr (x powi \<lfloor>y\<rfloor>)
      else if x < 0 then Inl ValueError
      else Inr (x powr y))"

text \<open>
  The closures \<open>_backward\<close>, by the operation that built the node (\<open>out\<close> is the node, \<open>self\<close>
  and \<open>other\<close> its operands); a leaf has \<open>lambda: None\<close>.
  \<^verbatim>\<open>
  __add__:  self.grad += out.grad
            other.grad += out.grad
  __mul__:  self.grad += other.data * out.grad
            other.grad += self.data * out.grad
  __pow__:  self.grad += (other * self.data**(other-1)) * out.grad
  relu:     self.grad += (out.data > 0) * out.grad
  exp:      self.grad += math.exp(self.data) * out.grad
  log:      self.grad += 1/self.data * out.grad
  Max:      if left.data > right.data:
                left.grad += self.grad
            else:
                right.grad += self.grad
  \<close>
\<close>

fun engine_node_backward :: "node \<Rightarrow> state \<Rightarrow> error + state" where
  "engine_node_backward (Const i d) s = Inr s"
| "engine_node_backward (Value i) s = Inr s"
| "engine_node_backward (BinaryValue i AddValue a b) s =
     (let s1 = add_grad (ident a) (grad s i) s
      in Inr (add_grad (ident b) (grad s1 i) s1))"
| "engine_node_backward (BinaryValue i MulValue a b) s =
     (let s1 = add_grad (ident a) (get_data b s * grad s i) s
      in Inr (add_grad (ident b) (get_data a s1 * grad s1 i) s1))"
| "engine_node_backward (UnaryValue i (PowValue other) a) s =
     (case py_pow (get_data a s) (other - 1) of
        Inl e \<Rightarrow> Inl e
      | Inr p \<Rightarrow> Inr (add_grad (ident a) ((other * p) * grad s i) s))"
| "engine_node_backward (UnaryValue i ReluValue a) s =
     Inr (add_grad (ident a) (of_bool (data s i > 0) * grad s i) s)"
| "engine_node_backward (UnaryValue i ExpValue a) s =
     Inr (add_grad (ident a) (exp (get_data a s) * grad s i) s)"
| "engine_node_backward (UnaryValue i LogValue a) s =
     (if get_data a s = 0 then Inl ZeroDivisionError
      else Inr (add_grad (ident a) (1 / get_data a s * grad s i) s))"
| "engine_node_backward (BinaryValue i MaxValue left right) s =
     (if get_data left s > get_data right s
      then Inr (add_grad (ident left) (grad s i) s)
      else Inr (add_grad (ident right) (grad s i) s))"

fun engine_run_backward :: "node list \<Rightarrow> state \<Rightarrow> error + state" where
  "engine_run_backward [] s = Inr s"
| "engine_run_backward (v # vs) s =
     (case engine_node_backward v s of
        Inl e \<Rightarrow> Inl e
      | Inr s' \<Rightarrow> engine_run_backward vs s')"

definition engine_backward :: "node \<Rightarrow> state \<Rightarrow> error + state" where
  "engine_backward self s =
     (case engine_build_topo self ({}, []) of
        (seen, t) \<Rightarrow> engine_run_backward (rev t) (set_grad (ident self) 1 s))"

text \<open>
  The data of a \<open>Max\<close> node of engine.py is \<open>max(left.data, right.data)\<close>; the builtin
  \<open>max\<close> of two arguments returns the second only when it is strictly greater than the
  first.
\<close>

definition engine_Max_data :: "real \<Rightarrow> real \<Rightarrow> real" where
  "engine_Max_data leftdata rightdata = (if rightdata > leftdata then rightdata else leftdata)"

fun no_Const :: "node \<Rightarrow> bool" where
  "no_Const (Const i d) = False"
| "no_Const (Value i) = True"
| "no_Const (UnaryValue i c a) = no_Const a"
| "no_Const (BinaryValue i c a b) = (no_Const a \<and> no_Const b)"

section \<open>The training loop (\<open>make_main\<close> in mnist.py)\<close>

text \<open>
  A record of the dataset: \<open>label\<close> is \<open>ord\<close> of one byte, \<open>pixels\<close> a Python 2 byte string.
\<close>

record mnist_image =
  label :: nat
  pixels :: string

text \<open>
  The variables the closures of \<open>make_main\<close> share. \<open>order\<close> is the local variable
  \<open>topo\<close>.
  \<^verbatim>\<open>
  loss = loss_of(model, inp_, expected_onehot)
  topo = loss.topo()
  params = model.parameters()
  params_set = {p: None for p in params}
  non_params = [p for p in topo if p not in params_set]
  reverse_topo = topo[::-1]
  \<close>
  The dictionary is keyed by object identity (the classes define no \<open>__eq__\<close> or
  \<open>__hash__\<close>). \<open>make_env\<close> starts from the inputs, the targets, the loss node and the
  parameter list.
\<close>

record main_env =
  inp :: "node list"
  expected_onehot :: "node list"
  loss :: node
  order :: "node list"
  params :: "node list"
  non_params :: "node list"
  reverse_topo :: "node list"

definition make_env :: "node list \<Rightarrow> node list \<Rightarrow> node \<Rightarrow> node list \<Rightarrow> state \<Rightarrow> main_env \<times> state" where
  "make_env inputs expected loss_node ps s =
     (case topo loss_node s of
        (t, s1) \<Rightarrow>
          (\<lparr>inp = inputs, expected_onehot = expected, loss = loss_node, order = t, params = ps,
            non_params = filter (\<lambda>p. ident p \<notin> ident ` set ps) t,
            reverse_topo = rev t\<rparr>, s1))"

text \<open>
  \<^verbatim>\<open>
  def forward(image):
      for e in expected_onehot:
          e.data = 0.
      expected_onehot[image.label].data = 1.
      for i in range(len(inp_)):
          inp_[i].data = ord(image.pixels[i]) / 255.
      for node in topo:
          node._forward()
      return loss.data
  \<close>
\<close>

fun write_pixels :: "node list \<Rightarrow> string \<Rightarrow> state \<Rightarrow> error + state" where
  "write_pixels [] ps s = Inr s"
| "write_pixels (x # xs) [] s = Inl IndexError"
| "write_pixels (x # xs) (p # ps) s = write_pixels xs ps (set_data (ident x) (real (of_char p) / 255) s)"

definition forward :: "main_env \<Rightarrow> mnist_image \<Rightarrow> state \<Rightarrow> error + (real \<times> state)" where
  "forward env im s =
     (let s1 = fold (\<lambda>e. set_data (ident e) 0) (expected_onehot env) s
      in if label im \<ge> length (expected_onehot env) then Inl IndexError
         else (case write_pixels (inp env) (pixels im)
                      (set_data (ident (expected_onehot env ! label im)) 1 s1) of
                 Inl e \<Rightarrow> Inl e
               | Inr s2 \<Rightarrow>
                   (case run_forward (order env) s2 of
                      Inl e \<Rightarrow> Inl e
                    | Inr s3 \<Rightarrow> Inr (data s3 (ident (loss env)), s3))))"

text \<open>
  \<^verbatim>\<open>
  def backward():
      for node in non_params:
          node.grad = 0.
      loss.grad = 1.
      for node in reverse_topo:
          node._backward()

  def zero_grad():
      for node in topo:
          node.grad = 0.

  def update_params():
      for p in model.parameters():
          p.data -= 0.1 * p.grad
  \<close>
  The closure \<open>backward\<close> is \<open>main_backward\<close> here, the closure \<open>zero_grad\<close> is
  \<open>main_zero_grad\<close>.
\<close>

definition reset_grads :: "node list \<Rightarrow> state \<Rightarrow> state" where
  "reset_grads xs s = fold (\<lambda>node. set_grad (ident node) 0) xs s"

definition main_backward :: "main_env \<Rightarrow> state \<Rightarrow> error + state" where
  "main_backward env s =
     run_backward (reverse_topo env)
       (set_grad (ident (loss env)) 1 (reset_grads (non_params env) s))"

definition main_zero_grad :: "main_env \<Rightarrow> state \<Rightarrow> state" where
  "main_zero_grad env s = reset_grads (order env) s"

definition update_params :: "main_env \<Rightarrow> state \<Rightarrow> state" where
  "update_params env s =
     fold (\<lambda>p s. set_data (ident p) (data s (ident p) - 0.1 * grad s (ident p)) s) (params env) s"

text \<open>
  \<^verbatim>\<open>
  zero_grad()
  batch_loss = 0.
  for im in batch:
      if im is not None:
          batch_loss += forward(im)
          backward()
  update_params()
  \<close>
  A batch is a list of records padded with \<open>None\<close>.
\<close>

fun batch_loop :: "main_env \<Rightarrow> mnist_image option list \<Rightarrow> real \<times> state \<Rightarrow> error + (real \<times> state)" where
  "batch_loop env [] (batch_loss, s) = Inr (batch_loss, s)"
| "batch_loop env (None # ims) (batch_loss, s) = batch_loop env ims (batch_loss, s)"
| "batch_loop env (Some im # ims) (batch_loss, s) =
     (case forward env im s of
        Inl e \<Rightarrow> Inl e
      | Inr (l, s1) \<Rightarrow>
          (case main_backward env s1 of
             Inl e \<Rightarrow> Inl e
           | Inr s2 \<Rightarrow> batch_loop env ims (batch_loss + l, s2)))"

definition train_batch :: "main_env \<Rightarrow> mnist_image option list \<Rightarrow> state \<Rightarrow> error + (real \<times> state)" where
  "train_batch env batch s =
     (case batch_loop env batch (0, main_zero_grad env s) of
        Inl e \<Rightarrow> Inl e
      | Inr (batch_loss, s1) \<Rightarrow> Inr (batch_loss, update_params env s1))"

text \<open>
  The gradient of one example: what the closure \<open>backward\<close> computes when every gradient
  is cleared first. \<open>summed_gradient\<close> adds these over the records of a batch that are not
  \<open>None\<close>, following the states the loop goes through.
\<close>

definition example_gradient :: "main_env \<Rightarrow> state \<Rightarrow> nat \<Rightarrow> real" where
  "example_gradient env s n =
     (case main_backward env (s\<lparr>grad := (\<lambda>i. 0)\<rparr>) of
        Inl e \<Rightarrow> 0
      | Inr z \<Rightarrow> grad z n)"

fun summed_gradient :: "main_env \<Rightarrow> mnist_image option list \<Rightarrow> state \<Rightarrow> nat \<Rightarrow> real" where
  "summed_gradient env [] s n = 0"
| "summed_gradient env (None # ims) s n = summed_gradient env ims s n"
| "summed_gradient env (Some im # ims) s n =
     (case forward env im s of
        Inl e \<Rightarrow> 0
      | Inr (l, s1) \<Rightarrow>
          (case main_backward env s1 of
             Inl e \<Rightarrow> 0
           | Inr s2 \<Rightarrow> example_gradient env s1 n + summed_gradient env ims s2 n))"

section \<open>Building the graph (mnist.py)\<close>

text \<open>
  Creating an object takes the next identity. \<open>BaseValue.__init__\<close> sets \<open>grad = 0\<close>,
  \<open>Value.__init__\<close> sets \<open>data = 0.0\<close>, and \<open>_visited\<close> is the class attribute \<open>False\<close>.
  (A \<open>Const\<close> has no field \<open>data\<close>; \<open>get_data\<close> never reads the store for it.)
\<close>

definition alloc :: "state \<Rightarrow> nat \<times> state" where
  "alloc s =
     (next_id s,
      s\<lparr>data := (data s)(next_id s := 0),
        grad := (grad s)(next_id s := 0),
        visited := (visited s)(next_id s := False),
        next_id := Suc (next_id s)\<rparr>)"

text \<open>The constructor calls \<open>Value()\<close>, \<open>Const(d)\<close>, \<open>Max(left, right)\<close>.\<close>

definition Value_new :: "state \<Rightarrow> node \<times> state" where
  "Value_new s = (let (i, s') = alloc s in (Value i, s'))"

definition Const_new :: "real \<Rightarrow> state \<Rightarrow> node \<times> state" where
  "Const_new d s = (let (i, s') = alloc s in (Const i d, s'))"

definition Max_new :: "node \<Rightarrow> node \<Rightarrow> state \<Rightarrow> node \<times> state" where
  "Max_new left right s = (let (i, s') = alloc s in (BinaryValue i MaxValue left right, s'))"

text \<open>
  The methods of \<open>BaseValue\<close>:
  \<^verbatim>\<open>
  def add(self, other):  return AddValue(self, other)
  def mul(self, other):  return MulValue(self, other)
  def sub(self, other):  return self.add(other.mul(Const(-1)))
  def pow(self, other):  return PowValue(self, other)
  def div(self, other):  return self.mul(other.pow(-1))
  def relu(self):        return ReluValue(self)
  def log(self):         return LogValue(self)
  def exp(self):         return ExpValue(self)
  \<close>
\<close>

definition add_node :: "node \<Rightarrow> node \<Rightarrow> state \<Rightarrow> node \<times> state" where
  "add_node self other s = (let (i, s') = alloc s in (BinaryValue i AddValue self other, s'))"

definition mul_node :: "node \<Rightarrow> node \<Rightarrow> state \<Rightarrow> node \<times> state" where
  "mul_node self other s = (let (i, s') = alloc s in (BinaryValue i MulValue self other, s'))"

definition sub_node :: "node \<Rightarrow> node \<Rightarrow> state \<Rightarrow> node \<times> state" where
  "sub_node self other s =
     (let (c, s1) = Const_new (- 1) s;
          (m, s2) = mul_node other c s1
      in add_node self m s2)"

definition pow_node :: "node \<Rightarrow> real \<Rightarrow> state \<Rightarrow> node \<times> state" where
  "pow_node self other s = (let (i, s') = alloc s in (UnaryValue i (PowValue other) self, s'))"

definition div_node :: "node \<Rightarrow> node \<Rightarrow> state \<Rightarrow> node \<times> state" where
  "div_node self other s =
     (let (p, s1) = pow_node other (- 1) s
      in mul_node self p s1)"

definition relu_node :: "node \<Rightarrow> state \<Rightarrow> node \<times> state" where
  "relu_node self s = (let (i, s') = alloc s in (UnaryValue i ReluValue self, s'))"

definition log_node :: "node \<Rightarrow> state \<Rightarrow> node \<times> state" where
  "log_node self s = (let (i, s') = alloc s in (UnaryValue i LogValue self, s'))"

definition exp_node :: "node \<Rightarrow> state \<Rightarrow> node \<times> state" where
  "exp_node self s = (let (i, s') = alloc s in (UnaryValue i ExpValue self, s'))"

subsection \<open>\<open>Neuron\<close>, \<open>Layer\<close>, \<open>MLP\<close>\<close>

text \<open>\<open>random.random()\<close> returns the next value of the generator.\<close>

definition random_random :: "state \<Rightarrow> real \<times> state" where
  "random_random s = (rng s 0, s\<lparr>rng := (\<lambda>k. rng s (Suc k))\<rparr>)"

record neuron =
  neuron_w :: "node list"
  neuron_b :: node
  neuron_nonlin :: bool
  neuron_parameters :: "node list"

text \<open>
  \<^verbatim>\<open>
  def __init__(self, nin, nonlin=True):
      w = []
      for _ in range(nin):
          v = Value()
          v.data = random.random()
          w.append(v)
      self.w = w
      self.b = Value() # op=bias
      self.nonlin = nonlin
      self._parameters = (self.w + [self.b])[:]
  \<close>
  \<open>init_weights k w\<close> is the loop with \<open>k\<close> iterations left; \<open>range(nin)\<close> is empty for a
  negative \<open>nin\<close>.
\<close>

fun init_weights :: "nat \<Rightarrow> node list \<Rightarrow> state \<Rightarrow> node list \<times> state" where
  "init_weights 0 w s = (w, s)"
| "init_weights (Suc k) w s =
     (let (v, s1) = Value_new s;
          (x, s2) = random_random s1
      in init_weights k (w @ [v]) (set_data (ident v) x s2))"

definition Neuron :: "int \<Rightarrow> bool \<Rightarrow> state \<Rightarrow> neuron \<times> state" where
  "Neuron nin nonlin s =
     (let (w, s1) = init_weights (nat nin) [] s;
          (b, s2) = Value_new s1
      in (\<lparr>neuron_w = w, neuron_b = b, neuron_nonlin = nonlin, neuron_parameters = w @ [b]\<rparr>, s2))"

text \<open>
  \<^verbatim>\<open>
  def evalneuron(self, x):
      result = self.b
      for i in range(len(x)):
          result = result.add(self.w[i].mul(x[i]))
      return result.relu() if self.nonlin else result
  \<close>
  \<open>self.w[i]\<close> raises \<open>IndexError\<close> when \<open>x\<close> is longer than \<open>w\<close>.
\<close>

fun evalneuron_loop :: "node list \<Rightarrow> node list \<Rightarrow> node \<Rightarrow> state \<Rightarrow> error + (node \<times> state)" where
  "evalneuron_loop w [] result s = Inr (result, s)"
| "evalneuron_loop [] (xi # x) result s = Inl IndexError"
| "evalneuron_loop (wi # w) (xi # x) result s =
     (let (m, s1) = mul_node wi xi s;
          (r, s2) = add_node result m s1
      in evalneuron_loop w x r s2)"

definition evalneuron :: "neuron \<Rightarrow> node list \<Rightarrow> state \<Rightarrow> error + (node \<times> state)" where
  "evalneuron self x s =
     (case evalneuron_loop (neuron_w self) x (neuron_b self) s of
        Inl e \<Rightarrow> Inl e
      | Inr (result, s1) \<Rightarrow> if neuron_nonlin self then Inr (relu_node result s1) else Inr (result, s1))"

record layer =
  layer_neurons :: "neuron list"
  layer_parameters :: "node list"

record mlp =
  mlp_layers :: "layer list"
  mlp_parameters :: "node list"

text \<open>\<open>evallayer\<close>: \<open>[n.evalneuron(x) for n in self.neurons]\<close>; \<open>evalmlp\<close>: \<open>for layer in self.layers: x = layer.evallayer(x)\<close>.\<close>

fun evalneurons :: "neuron list \<Rightarrow> node list \<Rightarrow> state \<Rightarrow> error + (node list \<times> state)" where
  "evalneurons [] x s = Inr ([], s)"
| "evalneurons (n # ns) x s =
     (case evalneuron n x s of
        Inl e \<Rightarrow> Inl e
      | Inr (v, s1) \<Rightarrow>
          (case evalneurons ns x s1 of
             Inl e \<Rightarrow> Inl e
           | Inr (vs, s2) \<Rightarrow> Inr (v # vs, s2)))"

definition evallayer :: "layer \<Rightarrow> node list \<Rightarrow> state \<Rightarrow> error + (node list \<times> state)" where
  "evallayer self x s = evalneurons (layer_neurons self) x s"

fun evallayers :: "layer list \<Rightarrow> node list \<Rightarrow> state \<Rightarrow> error + (node list \<times> state)" where
  "evallayers [] x s = Inr (x, s)"
| "evallayers (l # ls) x s =
     (case evallayer l x s of
        Inl e \<Rightarrow> Inl e
      | Inr (x', s1) \<Rightarrow> evallayers ls x' s1)"

definition evalmlp :: "mlp \<Rightarrow> node list \<Rightarrow> state \<Rightarrow> error + (node list \<times> state)" where
  "evalmlp self x s = evallayers (mlp_layers self) x s"

subsection \<open>\<open>stable_softmax\<close> and \<open>loss_of\<close>\<close>

text \<open>
  \<^verbatim>\<open>
  def stable_softmax(output):
      max_ = output[0]
      for i in range(1, len(output)):
          max_ = Max(max_, output[i])
      shiftx = [o.sub(max_) for o in output]
      exps = [o.exp() for o in shiftx]
      sum_ = exps[0]
      for index in range(1, len(exps)):
          sum_ = sum_.add(exps[index])
      return [o.div(sum_) for o in exps]
  \<close>
  \<open>map_new\<close> is a list comprehension whose body creates nodes.
\<close>

fun max_loop :: "node \<Rightarrow> node list \<Rightarrow> state \<Rightarrow> node \<times> state" where
  "max_loop max_v [] s = (max_v, s)"
| "max_loop max_v (x # xs) s = (let (m, s1) = Max_new max_v x s in max_loop m xs s1)"

fun sum_loop :: "node \<Rightarrow> node list \<Rightarrow> state \<Rightarrow> node \<times> state" where
  "sum_loop sum_v [] s = (sum_v, s)"
| "sum_loop sum_v (x # xs) s = (let (m, s1) = add_node sum_v x s in sum_loop m xs s1)"

fun map_new :: "(node \<Rightarrow> state \<Rightarrow> node \<times> state) \<Rightarrow> node list \<Rightarrow> state \<Rightarrow> node list \<times> state" where
  "map_new f [] s = ([], s)"
| "map_new f (x # xs) s =
     (let (y, s1) = f x s;
          (ys, s2) = map_new f xs s1
      in (y # ys, s2))"

definition stable_softmax :: "node list \<Rightarrow> state \<Rightarrow> error + (node list \<times> state)" where
  "stable_softmax output s =
     (case output of
        [] \<Rightarrow> Inl IndexError
      | o0 # rest \<Rightarrow>
          (let (max_v, s1) = max_loop o0 rest s;
               (shiftx, s2) = map_new (\<lambda>x. sub_node x max_v) output s1;
               (exps, s3) = map_new exp_node shiftx s2
           in (case exps of
                 [] \<Rightarrow> Inl IndexError
               | e0 # erest \<Rightarrow>
                   (let (sum_v, s4) = sum_loop e0 erest s3
                    in Inr (map_new (\<lambda>x. div_node x sum_v) exps s4)))))"

text \<open>
  \<^verbatim>\<open>
  def loss_of(model, inp_, expected_onehot):
      output = model.evalmlp(inp_)
      softmax_output = stable_softmax(output)
      result = Const(0.0)
      for i in range(len(expected_onehot)):
          exp = expected_onehot[i]
          act = softmax_output[i]
          result = result.add(act.add(Const(0.0001)).log().mul(exp))
      return result.mul(Const(-1))
  \<close>
  \<open>softmax_output[i]\<close> raises \<open>IndexError\<close> when there are more targets than outputs.
\<close>

fun loss_loop :: "node list \<Rightarrow> node list \<Rightarrow> node \<Rightarrow> state \<Rightarrow> error + (node \<times> state)" where
  "loss_loop [] acts result s = Inr (result, s)"
| "loss_loop (e # es) [] result s = Inl IndexError"
| "loss_loop (e # es) (act # acts) result s =
     (let (c, s1) = Const_new 0.0001 s;
          (a, s2) = add_node act c s1;
          (lg, s3) = log_node a s2;
          (m, s4) = mul_node lg e s3;
          (r, s5) = add_node result m s4
      in loss_loop es acts r s5)"

definition loss_of :: "mlp \<Rightarrow> node list \<Rightarrow> node list \<Rightarrow> state \<Rightarrow> error + (node \<times> state)" where
  "loss_of model inputs expected s =
     (case evalmlp model inputs s of
        Inl e \<Rightarrow> Inl e
      | Inr (output, s1) \<Rightarrow>
          (case stable_softmax output s1 of
             Inl e \<Rightarrow> Inl e
           | Inr (softmax_output, s2) \<Rightarrow>
               (let (result0, s3) = Const_new 0 s2
                in (case loss_loop expected softmax_output result0 s3 of
                      Inl e \<Rightarrow> Inl e
                    | Inr (result, s4) \<Rightarrow>
                        (let (c, s5) = Const_new (- 1) s4
                         in Inr (mul_node result c s5))))))"

subsection \<open>The value of a node\<close>

text \<open>
  \<open>val n s\<close> is the number the forward rules give node \<open>n\<close> when they are applied from the
  leaves up, reading only the data of the leaves; \<open>raises n s\<close> says that the forward rule
  of \<open>n\<close> raises on these values. Both are compared with the forward sweep over the
  topological order below.
\<close>

fun val :: "node \<Rightarrow> state \<Rightarrow> real" where
  "val (Const i d) s = d"
| "val (Value i) s = data s i"
| "val (BinaryValue i AddValue a b) s = val a s + val b s"
| "val (BinaryValue i MulValue a b) s = val a s * val b s"
| "val (BinaryValue i MaxValue a b) s =
     of_bool (val a s > val b s) * val a s + (1 - of_bool (val a s > val b s)) * val b s"
| "val (UnaryValue i (PowValue exponent) a) s =
     (case math_pow (val a s) exponent of Inl e \<Rightarrow> 0 | Inr v \<Rightarrow> v)"
| "val (UnaryValue i ReluValue a) s = of_bool (val a s > 0) * val a s"
| "val (UnaryValue i LogValue a) s = (case math_log (val a s) of Inl e \<Rightarrow> 0 | Inr v \<Rightarrow> v)"
| "val (UnaryValue i ExpValue a) s = exp (val a s)"

fun raises :: "node \<Rightarrow> state \<Rightarrow> bool" where
  "raises (UnaryValue i (PowValue exponent) a) s = isl (math_pow (val a s) exponent)"
| "raises (UnaryValue i LogValue a) s = isl (math_log (val a s))"
| "raises n s = False"

subsection \<open>Well-formed graphs under construction\<close>

text \<open>
  \<open>graph_ok s U\<close>: the nodes of \<open>U\<close> have unique identities, \<open>U\<close> contains the operands of
  its nodes, every identity is below the allocation counter, and no node is marked
  visited. \<open>grows s U s' U'\<close>: creating nodes has led from \<open>U\<close> to a well-formed \<open>U'\<close>, and the
  forward rule of no new node can raise.
\<close>

definition graph_ok :: "state \<Rightarrow> node set \<Rightarrow> bool" where
  "graph_ok s U =
     (unique_ids U \<and> (\<forall>x\<in>U. subnodes x \<subseteq> U)
      \<and> (\<forall>x\<in>U. ident x < next_id s \<and> \<not> visited s (ident x)))"

definition grows :: "state \<Rightarrow> node set \<Rightarrow> state \<Rightarrow> node set \<Rightarrow> bool" where
  "grows s U s' U' = (U \<subseteq> U' \<and> graph_ok s' U' \<and> next_id s \<le> next_id s'
      \<and> (\<forall>x\<in>U' - U. \<forall>\<sigma>. \<not> raises x \<sigma>))"

subsection \<open>The loss as the specification writes it\<close>

text \<open>
  Section 4.3 of the specification: \<open>m\<close> is the left-to-right fold of \<open>max\<close> over the outputs,
  \<open>softmax i = exp (o i - m) / (\<Sum>j. exp (o j - m))\<close> and
  \<open>loss = - (\<Sum>i. t i * log (softmax i + 1e-4))\<close>.
\<close>

definition fold_max :: "real list \<Rightarrow> real" where
  "fold_max xs = foldl max (hd xs) (tl xs)"

definition softmax_spec :: "real list \<Rightarrow> real list" where
  "softmax_spec xs = map (\<lambda>x. exp (x - fold_max xs) / (\<Sum>y\<leftarrow>xs. exp (y - fold_max xs))) xs"

definition loss_spec :: "real list \<Rightarrow> real list \<Rightarrow> real" where
  "loss_spec os ts = - (\<Sum>(t, p)\<leftarrow>zip ts (softmax_spec os). t * ln (p + 1 / 10000))"

subsection \<open>The shape of the nodes of \<open>stable_softmax\<close>\<close>

text \<open>
  The nodes that the methods of \<open>BaseValue\<close> return, whatever their identities:
  \<open>a.sub(b)\<close> is \<open>a.add(b.mul(Const(-1)))\<close>, \<open>a.exp()\<close> is \<open>ExpValue(a)\<close>, and
  \<open>a.div(b)\<close> is \<open>a.mul(b.pow(-1))\<close>. \<open>is_left_fold k m xs\<close> says that \<open>m\<close> is the fold
  from the left of the binary class \<open>k\<close> over the non-empty list \<open>xs\<close>: the first element
  for a list of one, and otherwise a node of class \<open>k\<close> whose right operand is the last
  element and whose left operand is the fold over the elements before it, as the loops
  \<open>max_ = Max(max_, output[i])\<close> and \<open>sum_ = sum_.add(exps[index])\<close> build it.
  \<open>left_fold_rev\<close> reads the list from its last element.
\<close>

fun left_fold_rev :: "binary_class \<Rightarrow> node \<Rightarrow> node list \<Rightarrow> bool" where
  "left_fold_rev k m [] = False"
| "left_fold_rev k m [x] = (m = x)"
| "left_fold_rev k (BinaryValue i k' a b) (x # y # ys) = (k' = k \<and> b = x \<and> left_fold_rev k a (y # ys))"
| "left_fold_rev k m (x # y # ys) = False"

definition is_left_fold :: "binary_class \<Rightarrow> node \<Rightarrow> node list \<Rightarrow> bool" where
  "is_left_fold k m xs = left_fold_rev k m (rev xs)"

fun is_sub :: "node \<Rightarrow> node \<Rightarrow> node \<Rightarrow> bool" where
  "is_sub (BinaryValue i AddValue a (BinaryValue j MulValue b (Const k c))) x y =
     (a = x \<and> b = y \<and> c = - 1)"
| "is_sub n x y = False"

fun is_exp :: "node \<Rightarrow> node \<Rightarrow> bool" where
  "is_exp (UnaryValue i ExpValue a) x = (a = x)"
| "is_exp n x = False"

fun is_div :: "node \<Rightarrow> node \<Rightarrow> node \<Rightarrow> bool" where
  "is_div (BinaryValue i MulValue a (UnaryValue j (PowValue e) b)) x y =
     (a = x \<and> b = y \<and> e = - 1)"
| "is_div n x y = False"

section \<open>Properties of \<open>grouper\<close>\<close>

lemma grouper_loop_pos:
  assumes "0 < n" "int (length cur) < n" "\<forall>g\<in>set allres. int (length g) = n"
  shows "\<exists>gs cur'. grouper_loop n xs allres cur = (allres @ gs, cur') \<and> int (length cur') < n
           \<and> (\<forall>g\<in>set gs. int (length g) = n) \<and> concat gs @ cur' = cur @ xs"
  using assms
proof (induction xs arbitrary: allres cur)
  case Nil
  then show ?case by simp
next
  case (Cons x xs)
  show ?case
  proof (cases "int (length (cur @ [x])) = n")
    case True
    have a: "\<forall>g\<in>set (allres @ [cur @ [x]]). int (length g) = n"
      using Cons.prems True by auto
    from Cons.IH[OF Cons.prems(1) _ a, of "[]"] Cons.prems(1)
    obtain gs cur' where g: "grouper_loop n xs (allres @ [cur @ [x]]) [] = ((allres @ [cur @ [x]]) @ gs, cur')"
      "int (length cur') < n" "\<forall>g\<in>set gs. int (length g) = n" "concat gs @ cur' = [] @ xs"
      by auto
    show ?thesis
      apply (rule exI[of _ "(cur @ [x]) # gs"], rule exI[of _ cur'])
      using g True by (simp add: Let_def)
  next
    case False
    then have lt: "int (length (cur @ [x])) < n" using Cons.prems(2) by simp
    from Cons.IH[OF Cons.prems(1) lt Cons.prems(3)]
    obtain gs cur' where g: "grouper_loop n xs allres (cur @ [x]) = (allres @ gs, cur')"
      "int (length cur') < n" "\<forall>g\<in>set gs. int (length g) = n" "concat gs @ cur' = (cur @ [x]) @ xs"
      by auto
    show ?thesis
      apply (rule exI[of _ gs], rule exI[of _ cur'])
      using g False by (simp add: Let_def)
  qed
qed

lemma grouper_loop_nonpos:
  "n \<le> 0 \<Longrightarrow> grouper_loop n xs allres cur = (allres, cur @ xs)"
  by (induction xs arbitrary: cur) (auto simp: Let_def)

lemma length_concat_groups:
  "\<forall>g\<in>set gs. int (length g) = n \<Longrightarrow> int (length (concat gs)) = int (length gs) * n"
  by (induction gs) (auto simp: algebra_simps)

lemma grouper_pos:
  assumes "0 < n"
  shows "\<exists>gs cur. grouper n xs f = gs @ [cur @ replicate (nat (n - int (length cur))) f]
           \<and> int (length cur) < n \<and> (\<forall>g\<in>set gs. int (length g) = n) \<and> concat gs @ cur = xs"
proof -
  from grouper_loop_pos[of n "[]" "[]" xs] assms
  obtain gs cur where g: "grouper_loop n xs [] [] = (gs, cur)" "int (length cur) < n"
      "\<forall>g\<in>set gs. int (length g) = n" "concat gs @ cur = xs"
    by auto
  then show ?thesis by (auto simp: grouper_def)
qed

text \<open>
  Claim C9. When the length of the list is an exact multiple \<open>k * n\<close> of a positive group
  size \<open>n\<close> (the empty list is \<open>k = 0\<close>), \<open>grouper\<close> returns the \<open>k\<close> full groups of
  the list followed by one more group made of \<open>n\<close> copies of the fill value. For every
  list, the result is non-empty and its last group ends with the fill value. The example
  of six elements in groups of three is the last conjunct.
\<close>

theorem grouper_exact_multiple:
  fixes fillvalue :: 'a
  assumes "0 < n"
  shows "(int (length xs) = int k * n \<longrightarrow>
           (\<exists>gs. grouper n xs fillvalue = gs @ [replicate (nat n) fillvalue]
              \<and> concat gs = xs \<and> length gs = k \<and> (\<forall>g\<in>set gs. int (length g) = n)))
       \<and> grouper n xs fillvalue \<noteq> []
       \<and> last (last (grouper n xs fillvalue)) = fillvalue
       \<and> grouper 3 [Some 1, Some 2, Some 3, Some 4, Some 5, Some (6::int)] None
            = [[Some 1, Some 2, Some 3], [Some 4, Some 5, Some 6], [None, None, None]]"
proof -
  from grouper_pos[OF assms, of xs fillvalue]
  obtain gs cur where g: "grouper n xs fillvalue = gs @ [cur @ replicate (nat (n - int (length cur))) fillvalue]"
      "int (length cur) < n" "\<forall>g\<in>set gs. int (length g) = n" "concat gs @ cur = xs"
    by blast
  have last_fill: "last (last (grouper n xs fillvalue)) = fillvalue"
    using g(1,2) by simp
  have exact: "\<exists>gs. grouper n xs fillvalue = gs @ [replicate (nat n) fillvalue]
              \<and> concat gs = xs \<and> length gs = k \<and> (\<forall>g\<in>set gs. int (length g) = n)"
    if len: "int (length xs) = int k * n"
  proof -
    have "int (length xs) = int (length gs) * n + int (length cur)"
      using length_concat_groups[OF g(3)] g(4) by (metis length_append of_nat_add)
    with len have eq: "int k * n = int (length gs) * n + int (length cur)" by simp
    have "int (length cur) = (int k - int (length gs)) * n"
      using eq by (simp add: algebra_simps)
    moreover have "0 \<le> int (length cur)" by simp
    ultimately have "(int k - int (length gs)) * n < 1 * n" "(-1) * n < (int k - int (length gs)) * n"
      using g(2) assms by auto
    then have "int k - int (length gs) < 1" "-1 < int k - int (length gs)"
      using assms by (simp_all only: mult_less_cancel_right_pos)
    then have "int k - int (length gs) = 0" by linarith
    then have "length gs = k" "cur = []" using eq by auto
    then show ?thesis using g by auto
  qed
  have ex: "grouper 3 [Some 1, Some 2, Some 3, Some 4, Some 5, Some (6::int)] None
            = [[Some 1, Some 2, Some 3], [Some 4, Some 5, Some 6], [None, None, None]]"
    by (simp add: grouper_def Let_def numeral_eq_Suc)
  have ne: "grouper n xs fillvalue \<noteq> []" using g(1) by simp
  show ?thesis using exact last_fill ne ex by (intro conjI impI)
qed

theorem grouper_exact_multiple_witness:
  "(0::int) < 3 \<and> (\<exists>gs. grouper 3 [1, 2, 3, 4, 5, 6::nat] 0 = gs @ [replicate 3 0]
        \<and> concat gs = [1, 2, 3, 4, 5, 6] \<and> length gs = 2)
    \<and> grouper 3 ([]::nat list) 7 = [[7, 7, 7]]"
proof -
  have a: "\<exists>gs. grouper 3 [1, 2, 3, 4, 5, 6::nat] 0 = gs @ [replicate (nat 3) 0]
        \<and> concat gs = [1, 2, 3, 4, 5, 6] \<and> length gs = 2 \<and> (\<forall>g\<in>set gs. int (length g) = 3)"
    using grouper_exact_multiple[of 3 "[1, 2, 3, 4, 5, 6::nat]" 2 0] by simp
  have b: "\<exists>gs. grouper 3 ([]::nat list) 7 = gs @ [replicate (nat 3) 7]
        \<and> concat gs = [] \<and> length gs = 0 \<and> (\<forall>g\<in>set gs. int (length g) = 3)"
    using grouper_exact_multiple[of 3 "[]::nat list" 0 7] by simp
  from b have "grouper 3 ([]::nat list) 7 = [[7, 7, 7]]" by (auto simp: numeral_eq_Suc)
  with a show ?thesis by auto
qed

section \<open>The topological order\<close>

lemma subnodes_self [simp]: "n \<in> subnodes n"
  by (cases n) auto

lemma subnodes_trans: "x \<in> subnodes y \<Longrightarrow> y \<in> subnodes z \<Longrightarrow> x \<in> subnodes z"
  by (induction z) auto

lemma subnodes_size: "x \<in> subnodes n \<Longrightarrow> size x \<le> size n"
  by (induction n) auto

lemma prev_subnodes: "a \<in> set (prev x) \<Longrightarrow> a \<in> subnodes x"
  by (cases x) auto

lemma prev_size: "a \<in> set (prev x) \<Longrightarrow> size a < size x"
  by (cases x) auto

lemma postorder_subnodes: "x \<in> set (postorder n) \<Longrightarrow> x \<in> subnodes n"
  by (induction n) auto

lemma postorder_not_Const: "x \<in> set (postorder n) \<Longrightarrow> \<not> is_Const x"
  by (induction n) auto

lemma subnodes_postorder: "x \<in> subnodes n \<Longrightarrow> \<not> is_Const x \<Longrightarrow> x \<in> set (postorder n)"
  by (induction n) auto

lemma set_postorder: "set (postorder n) = {x \<in> subnodes n. \<not> is_Const x}"
  using postorder_subnodes postorder_not_Const subnodes_postorder by blast

lemma first_visits_append:
  "first_visits V (xs @ ys) = first_visits V xs @ first_visits (V \<union> ident ` set xs) ys"
  by (induction xs arbitrary: V) (auto simp: insert_absorb)

lemma first_visits_insert:
  "i \<notin> ident ` set xs \<Longrightarrow> first_visits (insert i V) xs = first_visits V xs"
  by (induction xs arbitrary: V) (auto simp: insert_commute)

lemma first_visits_all_visited:
  "ident ` set xs \<subseteq> V \<Longrightarrow> first_visits V xs = []"
  by (induction xs arbitrary: V) auto

lemma unique_ids_subset: "unique_ids U \<Longrightarrow> W \<subseteq> U \<Longrightarrow> unique_ids W"
  by (auto simp: unique_ids_def)

lemma operand_id_unary:
  assumes "unique_ids (subnodes (UnaryValue i c a))" "x \<in> subnodes a"
  shows "ident x \<noteq> i"
proof
  assume "ident x = i"
  then have "x = UnaryValue i c a" using assms by (auto simp: unique_ids_def)
  then show False using subnodes_size[OF assms(2)] by simp
qed

lemma operand_id_binary:
  assumes "unique_ids (subnodes (BinaryValue i c a b))" "x \<in> subnodes a \<union> subnodes b"
  shows "ident x \<noteq> i"
proof
  assume "ident x = i"
  then have "x = BinaryValue i c a b" using assms by (auto simp: unique_ids_def)
  then show False using assms(2) subnodes_size[of x a] subnodes_size[of x b] by auto
qed

lemma postorder_trans:
  "y \<in> set (postorder x) \<Longrightarrow> x \<in> set (postorder n) \<Longrightarrow> y \<in> set (postorder n)"
  by (meson postorder_not_Const postorder_subnodes subnodes_postorder subnodes_trans)

lemma visited_set_mark [simp]: "visited_set (mark_visited i s) = insert i (visited_set s)"
  by (auto simp: visited_set_def mark_visited_def)

lemma visited_set_visit_all [simp]: "visited_set (visit_all xs s) = visited_set s \<union> ident ` set xs"
  by (auto simp: visited_set_def visit_all_def)

lemma marks_closed_all_visited:
  assumes "marks_closed s n" "visited s (ident n)" "\<not> is_Const n"
  shows "ident ` set (postorder n) \<subseteq> visited_set s"
  using assms subnodes_postorder[of n n]
  by (auto simp: marks_closed_def visited_set_def)

lemma visit_all_absorb:
  "ident ` set xs \<subseteq> visited_set s \<Longrightarrow> visit_all xs s = s"
  by (cases s) (auto simp: visit_all_def visited_set_def fun_eq_iff)

lemma postorder_ident_inj:
  assumes "unique_ids (subnodes n)" "x \<in> subnodes n" "ident x \<in> ident ` set (postorder a)" "a \<in> subnodes n"
  shows "x \<in> set (postorder a)"
proof -
  from assms(3) obtain x' where x': "x' \<in> set (postorder a)" "ident x' = ident x" by auto
  then have "x' \<in> subnodes n" using assms(4) postorder_subnodes subnodes_trans by blast
  then have "x' = x" using assms(1,2) x'(2) by (auto simp: unique_ids_def)
  then show ?thesis using x'(1) by simp
qed

lemma marks_closed_step:
  assumes uniq: "unique_ids (subnodes n)"
    and b: "b \<in> subnodes n" and i: "i \<notin> ident ` set (postorder b)"
    and closed: "marks_closed s n"
    and v: "\<And>j. visited s' j \<longleftrightarrow> visited s j \<or> j = i \<or> j \<in> ident ` set xs"
    and xs_sub: "set xs \<subseteq> subnodes n"
    and xs_closed: "\<And>x y. x \<in> set xs \<Longrightarrow> y \<in> set (postorder x) \<Longrightarrow> y \<in> set xs"
  shows "marks_closed s' b"
  unfolding marks_closed_def
proof (intro ballI impI)
  fix x y
  assume x: "x \<in> set (postorder b)" and y: "y \<in> set (postorder x)"
    and vx: "visited s' (ident x)"
  have xn: "x \<in> subnodes n" using x b postorder_subnodes subnodes_trans by blast
  have xn': "x \<in> set (postorder n)" using xn x postorder_not_Const subnodes_postorder by blast
  from vx have "visited s (ident x) \<or> ident x = i \<or> ident x \<in> ident ` set xs"
    using v by simp
  moreover have "ident x \<noteq> i" using i x by auto
  ultimately consider "visited s (ident x)" | "ident x \<in> ident ` set xs" by blast
  then show "visited s' (ident y)"
  proof cases
    case 1
    then have "visited s (ident y)" using closed xn' y by (auto simp: marks_closed_def)
    then show ?thesis using v by simp
  next
    case 2
    then obtain x' where x': "x' \<in> set xs" "ident x' = ident x" by auto
    then have "x' = x" using uniq xn xs_sub by (auto simp: unique_ids_def)
    then have "y \<in> set xs" using xs_closed x'(1) y by simp
    then show ?thesis using v by auto
  qed
qed

lemma visited_update_cong:
  "(\<And>i. f i = g i) \<Longrightarrow> s\<lparr>visited := f\<rparr> = s\<lparr>visited := g\<rparr>"
  by (rule arg_cong[where f = "\<lambda>h. s\<lparr>visited := h\<rparr>"]) (rule ext)

lemma visited_update_id:
  "(\<And>i. f i = visited s i) \<Longrightarrow> s\<lparr>visited := f\<rparr> = s"
  using visited_update_cong[of f "visited s" s] by simp

lemma visit_all_Nil [simp]: "visit_all [] s = s"
  by (simp add: visit_all_def)

lemma visit_all_append:
  "visit_all (xs @ ys) s = visit_all ys (visit_all xs s)"
  unfolding visit_all_def by (simp, rule visited_update_cong) auto

lemma visit_all_mark:
  "visit_all [x] s = mark_visited (ident x) s"
  unfolding visit_all_def mark_visited_def by (rule visited_update_cong) auto

lemma visit_all_commute:
  "visit_all xs (mark_visited i s) = mark_visited i (visit_all xs s)"
  unfolding visit_all_def mark_visited_def by (simp, rule visited_update_cong) auto

lemma build_topo_char:
  "unique_ids (subnodes n) \<Longrightarrow> marks_closed s n \<Longrightarrow>
   build_topo n (t, s) = (t @ first_visits (visited_set s) (postorder n), visit_all (postorder n) s)"
proof (induction n arbitrary: t s)
  case (Const i d)
  then show ?case by simp
next
  case (Value i)
  show ?case
  proof (cases "visited s i")
    case True
    then have "visit_all [Value i] s = s"
      unfolding visit_all_def by (intro visited_update_id) auto
    then show ?thesis using True by (simp add: visited_set_def)
  next
    case False
    then show ?thesis by (simp add: visited_set_def visit_all_mark)
  qed
next
  case (UnaryValue i c a)
  let ?n = "UnaryValue i c a"
  show ?case
  proof (cases "visited s i")
    case True
    have "ident ` set (postorder ?n) \<subseteq> visited_set s"
      using marks_closed_all_visited[OF UnaryValue.prems(2)] True by simp
    then show ?thesis using True
      by (simp only: build_topo.simps if_True first_visits_all_visited visit_all_absorb append_Nil2)
  next
    case False
    have ia: "i \<notin> ident ` set (postorder a)"
      using operand_id_unary[OF UnaryValue.prems(1)] postorder_subnodes by blast
    have ua: "unique_ids (subnodes a)"
      using UnaryValue.prems(1) by (rule unique_ids_subset) auto
    have ca: "marks_closed (mark_visited i s) a"
      by (rule marks_closed_step[OF UnaryValue.prems(1) _ ia UnaryValue.prems(2), where xs = "[]"])
         (auto simp: mark_visited_def)
    have iv: "i \<notin> visited_set s" using False by (simp add: visited_set_def)
    have "build_topo a (t, mark_visited i s)
           = (t @ first_visits (visited_set s) (postorder a), visit_all (postorder a) (mark_visited i s))"
      using UnaryValue.IH[OF ua ca, of t] ia by (simp add: first_visits_insert)
    then show ?thesis using False ia iv
      by (simp add: first_visits_append visit_all_append visit_all_mark visit_all_commute)
  qed
next
  case (BinaryValue i c a b)
  let ?n = "BinaryValue i c a b"
  show ?case
  proof (cases "visited s i")
    case True
    have "ident ` set (postorder ?n) \<subseteq> visited_set s"
      using marks_closed_all_visited[OF BinaryValue.prems(2)] True by simp
    then show ?thesis using True
      by (simp only: build_topo.simps if_True first_visits_all_visited visit_all_absorb append_Nil2)
  next
    case False
    have ia: "i \<notin> ident ` set (postorder a)" and ib: "i \<notin> ident ` set (postorder b)"
      using operand_id_binary[OF BinaryValue.prems(1)] postorder_subnodes by blast+
    have ua: "unique_ids (subnodes a)" and ub: "unique_ids (subnodes b)"
      using BinaryValue.prems(1) by (auto elim: unique_ids_subset)
    have ca: "marks_closed (mark_visited i s) a"
      by (rule marks_closed_step[OF BinaryValue.prems(1) _ ia BinaryValue.prems(2), where xs = "[]"])
         (auto simp: mark_visited_def)
    have cb: "marks_closed (visit_all (postorder a) (mark_visited i s)) b"
    proof (rule marks_closed_step[OF BinaryValue.prems(1) _ ib BinaryValue.prems(2), where xs = "postorder a"])
      show "b \<in> subnodes ?n" by simp
      show "visited (visit_all (postorder a) (mark_visited i s)) j
              \<longleftrightarrow> visited s j \<or> j = i \<or> j \<in> ident ` set (postorder a)" for j
        by (auto simp: visit_all_def mark_visited_def)
      show "set (postorder a) \<subseteq> subnodes ?n" using postorder_subnodes by auto
      show "y \<in> set (postorder a)" if "x \<in> set (postorder a)" "y \<in> set (postorder x)" for x y
        using that postorder_trans by blast
    qed
    have iv: "i \<notin> visited_set s" using False by (simp add: visited_set_def)
    have sa: "build_topo a (t, mark_visited i s)
           = (t @ first_visits (visited_set s) (postorder a), visit_all (postorder a) (mark_visited i s))"
      using BinaryValue.IH(1)[OF ua ca, of t] ia by (simp add: first_visits_insert)
    have sb: "build_topo b (t @ first_visits (visited_set s) (postorder a), visit_all (postorder a) (mark_visited i s))
           = ((t @ first_visits (visited_set s) (postorder a))
                @ first_visits (visited_set s \<union> ident ` set (postorder a)) (postorder b),
              visit_all (postorder b) (visit_all (postorder a) (mark_visited i s)))"
      using BinaryValue.IH(2)[OF ub cb, of "t @ first_visits (visited_set s) (postorder a)"] ib
      by (simp add: first_visits_insert)
    have "build_topo ?n (t, s)
           = (t @ first_visits (visited_set s) (postorder a)
                @ first_visits (visited_set s \<union> ident ` set (postorder a)) (postorder b) @ [?n],
              visit_all (postorder b) (visit_all (postorder a) (mark_visited i s)))"
      using False by (simp add: sa sb)
    then show ?thesis using ia ib iv
      by (simp add: first_visits_append visit_all_append visit_all_mark visit_all_commute)
  qed
qed

lemma topo_sorted_append:
  "topo_sorted S (xs @ ys) \<longleftrightarrow> topo_sorted S xs \<and> topo_sorted (S \<union> set xs) ys"
  by (induction xs arbitrary: S) auto

lemma topo_sorted_mono: "topo_sorted S xs \<Longrightarrow> S \<subseteq> S' \<Longrightarrow> topo_sorted S' xs"
proof (induction xs arbitrary: S S')
  case Nil
  then show ?case by simp
next
  case (Cons x xs)
  have "topo_sorted (insert x S') xs"
    using Cons.IH[of "insert x S" "insert x S'"] Cons.prems by auto
  then show ?case using Cons.prems by auto
qed

lemma topo_sorted_postorder: "topo_sorted S (postorder n)"
proof (induction n arbitrary: S)
  case (UnaryValue i c a)
  then show ?case
    using subnodes_postorder[of a a] by (auto simp: topo_sorted_append)
next
  case (BinaryValue i c a b)
  then show ?case
    using subnodes_postorder[of a a] subnodes_postorder[of b b] by (auto simp: topo_sorted_append)
qed auto

lemma topo_sorted_first_visits:
  assumes "topo_sorted S xs" "S \<subseteq> S'" "\<forall>x\<in>set xs. ident x \<in> V \<longrightarrow> x \<in> S'"
    "unique_ids (set xs)"
  shows "topo_sorted S' (first_visits V xs)"
  using assms
proof (induction xs arbitrary: S S' V)
  case Nil
  then show ?case by simp
next
  case (Cons x xs)
  have u: "unique_ids (set xs)" using Cons.prems(4) by (auto simp: unique_ids_def)
  show ?case
  proof (cases "ident x \<in> V")
    case True
    then have "x \<in> S'" using Cons.prems(3) by simp
    then have "topo_sorted S' (first_visits V xs)"
      using Cons.IH[of "insert x S" S' V] Cons.prems u by auto
    then show ?thesis using True by simp
  next
    case False
    have "\<forall>y\<in>set xs. ident y \<in> insert (ident x) V \<longrightarrow> y \<in> insert x S'"
      using Cons.prems(3,4) by (auto simp: unique_ids_def)
    then have "topo_sorted (insert x S') (first_visits (insert (ident x) V) xs)"
      using Cons.IH[of "insert x S" "insert x S'" "insert (ident x) V"] Cons.prems u by auto
    then show ?thesis using False Cons.prems by auto
  qed
qed

lemma set_first_visits_subset: "set (first_visits V xs) \<subseteq> set xs"
  by (induction xs arbitrary: V) auto

lemma ids_first_visits: "ident ` set (first_visits V xs) = ident ` set xs - V"
  by (induction xs arbitrary: V) auto

lemma set_first_visits:
  assumes "unique_ids (set xs)"
  shows "set (first_visits V xs) = {x \<in> set xs. ident x \<notin> V}"
proof -
  have "x \<in> set (first_visits V xs)" if "x \<in> set xs" "ident x \<notin> V" for x
  proof -
    have "ident x \<in> ident ` set (first_visits V xs)" using that by (simp add: ids_first_visits)
    then obtain y where y: "y \<in> set (first_visits V xs)" "ident y = ident x" by auto
    then have "y = x" using assms that(1) set_first_visits_subset by (auto simp: unique_ids_def)
    then show ?thesis using y by simp
  qed
  moreover have "ident x \<notin> V" if "x \<in> set (first_visits V xs)" for x
    using that ids_first_visits[of V xs] by blast
  ultimately show ?thesis using set_first_visits_subset by blast
qed

lemma distinct_first_visits: "distinct (map ident (first_visits V xs))"
proof (induction xs arbitrary: V)
  case Nil
  then show ?case by simp
next
  case (Cons x xs)
  have "ident x \<notin> ident ` set (first_visits (insert (ident x) V) xs)"
    by (simp add: ids_first_visits)
  then show ?case using Cons.IH by simp
qed

lemma first_visits_cong:
  "V \<inter> ident ` set xs = W \<inter> ident ` set xs \<Longrightarrow> first_visits V xs = first_visits W xs"
proof (induction xs arbitrary: V W)
  case Nil
  then show ?case by simp
next
  case (Cons x xs)
  have mem: "ident x \<in> V \<longleftrightarrow> ident x \<in> W" using Cons.prems by auto
  have a: "V \<inter> ident ` set xs = W \<inter> ident ` set xs" using Cons.prems by auto
  have b: "insert (ident x) V \<inter> ident ` set xs = insert (ident x) W \<inter> ident ` set xs"
    using a by blast
  show ?case using mem Cons.IH[OF a] Cons.IH[OF b] by simp
qed

lemma first_visits_disjoint:
  "V \<inter> ident ` set xs = {} \<Longrightarrow> first_visits V xs = first_visits {} xs"
  by (rule first_visits_cong) simp

lemma topo_sorted_nth:
  "topo_sorted S xs \<Longrightarrow> j < length xs \<Longrightarrow> a \<in> set (prev (xs ! j)) \<Longrightarrow> \<not> is_Const a
     \<Longrightarrow> a \<in> S \<or> (\<exists>k<j. xs ! k = a)"
proof (induction xs arbitrary: S j)
  case Nil
  then show ?case by simp
next
  case (Cons x xs)
  show ?case
  proof (cases j)
    case 0
    then show ?thesis using Cons.prems by auto
  next
    case (Suc j')
    then have "a \<in> insert x S \<or> (\<exists>k<j'. xs ! k = a)"
      using Cons.IH[of "insert x S" j'] Cons.prems by auto
    then consider "a = x" | "a \<in> S" | k where "k < j'" "xs ! k = a" by blast
    then show ?thesis
    proof cases
      case 1
      then have "0 < j \<and> (x # xs) ! 0 = a" using Suc by simp
      then show ?thesis by blast
    next
      case 2
      then show ?thesis by simp
    next
      case 3
      then have "Suc k < j \<and> (x # xs) ! Suc k = a" using Suc by simp
      then show ?thesis by blast
    qed
  qed
qed

lemma last_first_visits_root:
  assumes "unique_ids (subnodes r)" "\<not> is_Const r"
  shows "first_visits {} (postorder r) \<noteq> [] \<and> last (first_visits {} (postorder r)) = r"
proof (cases r)
  case (Const i d)
  then show ?thesis using assms by simp
next
  case (Value i)
  then show ?thesis by simp
next
  case (UnaryValue i c a)
  have "i \<notin> ident ` set (postorder a)"
    using operand_id_unary[of i c a] assms(1) postorder_subnodes unfolding UnaryValue by blast
  then show ?thesis unfolding UnaryValue by (simp add: first_visits_append)
next
  case (BinaryValue i c a b)
  have "i \<notin> ident ` set (postorder a)" "i \<notin> ident ` set (postorder b)"
    using operand_id_binary[of i c a b] assms(1) postorder_subnodes unfolding BinaryValue by blast+
  then show ?thesis unfolding BinaryValue by (simp add: first_visits_append)
qed

lemma topo_fresh:
  assumes uniq: "unique_ids (subnodes r)" and fresh: "\<forall>x\<in>subnodes r. \<not> visited s (ident x)"
  shows "topo r s = (first_visits {} (postorder r), visit_all (postorder r) s)"
proof -
  have nv: "\<not> visited s (ident x)" if "x \<in> set (postorder r)" for x
    using fresh postorder_subnodes[OF that] by blast
  have closed: "marks_closed s r"
    unfolding marks_closed_def using nv by blast
  have "visited_set s \<inter> ident ` set (postorder r) = {}"
    unfolding visited_set_def using nv by blast
  then have "first_visits (visited_set s) (postorder r) = first_visits {} (postorder r)"
    by (rule first_visits_disjoint)
  then show ?thesis
    using build_topo_char[OF uniq closed, of "[]"] by (simp add: topo_def)
qed

lemma mem_visited_set: "i \<in> visited_set s \<longleftrightarrow> visited s i"
  by (simp add: visited_set_def)

lemma engine_build_topo_eq:
  "no_Const v \<Longrightarrow>
   engine_build_topo v (visited_set s, t)
     = (visited_set (snd (build_topo v (t, s))), fst (build_topo v (t, s)))"
proof (induction v arbitrary: s t)
  case (Const i d)
  then show ?case by (simp add: engine_build_topo.simps)
next
  case (Value i)
  then show ?case by (simp add: engine_build_topo.simps mem_visited_set)
next
  case (UnaryValue i c a)
  show ?case
  proof (cases "visited s i")
    case True
    then show ?thesis by (simp add: engine_build_topo.simps mem_visited_set)
  next
    case False
    have "engine_build_topo a (insert i (visited_set s), t)
        = (visited_set (snd (build_topo a (t, mark_visited i s))), fst (build_topo a (t, mark_visited i s)))"
      using UnaryValue.IH[of "mark_visited i s" t] UnaryValue.prems by simp
    then show ?thesis using False by (simp add: engine_build_topo.simps mem_visited_set split_beta)
  qed
next
  case (BinaryValue i c a b)
  show ?case
  proof (cases "visited s i")
    case True
    then show ?thesis by (simp add: engine_build_topo.simps mem_visited_set)
  next
    case False
    let ?ra = "build_topo a (t, mark_visited i s)"
    have a: "engine_build_topo a (insert i (visited_set s), t) = (visited_set (snd ?ra), fst ?ra)"
      using BinaryValue.IH(1)[of "mark_visited i s" t] BinaryValue.prems by simp
    have b: "engine_build_topo b (visited_set (snd ?ra), fst ?ra)
        = (visited_set (snd (build_topo b ?ra)), fst (build_topo b ?ra))"
      using BinaryValue.IH(2)[of "snd ?ra" "fst ?ra"] BinaryValue.prems by simp
    show ?thesis using False a b by (simp add: engine_build_topo.simps mem_visited_set split_beta)
  qed
qed

lemma no_Const_subnodes: "no_Const r \<Longrightarrow> x \<in> subnodes r \<Longrightarrow> \<not> is_Const x"
  by (induction r) auto

lemma engine_topo:
  assumes nc: "no_Const r" and uniq: "unique_ids (subnodes r)"
    and fresh: "\<forall>x\<in>subnodes r. \<not> visited s (ident x)"
  shows "snd (engine_build_topo r ({}, [])) = fst (topo r s)"
    and "set (fst (topo r s)) = subnodes r"
proof -
  have e: "\<forall>x\<in>subnodes r. \<not> visited empty_state (ident x)" by (simp add: empty_state_def)
  have v: "visited_set empty_state = {}" by (simp add: visited_set_def empty_state_def)
  have "snd (engine_build_topo r ({}, [])) = fst (topo r empty_state)"
    using engine_build_topo_eq[OF nc, of empty_state "[]"] by (simp add: v topo_def)
  also have "\<dots> = first_visits {} (postorder r)" using topo_fresh[OF uniq e] by simp
  also have "\<dots> = fst (topo r s)" using topo_fresh[OF uniq fresh] by simp
  finally show "snd (engine_build_topo r ({}, [])) = fst (topo r s)" .
  have up: "unique_ids (set (postorder r))"
    using uniq postorder_subnodes by (auto simp: unique_ids_def)
  have "set (fst (topo r s)) = {x \<in> subnodes r. \<not> is_Const x}"
    using topo_fresh[OF uniq fresh] set_first_visits[OF up, of "{}"] by (simp add: set_postorder)
  then show "set (fst (topo r s)) = subnodes r"
    using no_Const_subnodes[OF nc] by auto
qed

text \<open>
  Claim C3, as amended. On a graph with unique identities whose \<open>_visited\<close> flags are all
  clear, \<open>topo\<close> of mnist.py returns the post-order depth-first sequence, left operand
  first, of the reachable nodes that are not \<open>Const\<close> nodes: its set is exactly these
  nodes, every identity occurs once, every node stands after each of its operands that is
  not a \<open>Const\<close>, and a root that is not a \<open>Const\<close> is the last element. On the graphs of
  engine.py, which have no \<open>Const\<close> node, \<open>build_topo\<close> returns the same sequence and the
  claim holds as stated: the sequence contains exactly the reachable nodes, each once,
  every node after all of its operands, the root last.
\<close>

theorem topo_postorder:
  assumes uniq: "unique_ids (subnodes r)" and fresh: "\<forall>x\<in>subnodes r. \<not> visited s (ident x)"
  shows "fst (topo r s) = first_visits {} (postorder r)
       \<and> set (fst (topo r s)) = {x \<in> subnodes r. \<not> is_Const x}
       \<and> distinct (map ident (fst (topo r s)))
       \<and> (\<forall>j<length (fst (topo r s)). \<forall>a\<in>set (prev (fst (topo r s) ! j)).
             \<not> is_Const a \<longrightarrow> (\<exists>k<j. fst (topo r s) ! k = a))
       \<and> (\<not> is_Const r \<longrightarrow> fst (topo r s) \<noteq> [] \<and> last (fst (topo r s)) = r)
       \<and> (no_Const r \<longrightarrow>
             snd (engine_build_topo r ({}, [])) = first_visits {} (postorder r)
           \<and> set (snd (engine_build_topo r ({}, []))) = subnodes r
           \<and> distinct (map ident (snd (engine_build_topo r ({}, []))))
           \<and> (\<forall>j<length (snd (engine_build_topo r ({}, []))).
                 \<forall>a\<in>set (prev (snd (engine_build_topo r ({}, [])) ! j)).
                   \<exists>k<j. snd (engine_build_topo r ({}, [])) ! k = a)
           \<and> last (snd (engine_build_topo r ({}, []))) = r)"
proof -
  let ?t = "first_visits {} (postorder r)"
  have t: "fst (topo r s) = ?t" using topo_fresh[OF uniq fresh] by simp
  have up: "unique_ids (set (postorder r))"
    using uniq postorder_subnodes by (auto simp: unique_ids_def)
  have s: "set ?t = {x \<in> subnodes r. \<not> is_Const x}"
    using set_first_visits[OF up, of "{}"] by (simp add: set_postorder)
  have d: "distinct (map ident ?t)" by (rule distinct_first_visits)
  have sorted: "topo_sorted {} ?t"
    by (rule topo_sorted_first_visits[OF topo_sorted_postorder[of "{}" r] _ _ up]) auto
  have ord: "\<forall>j<length ?t. \<forall>a\<in>set (prev (?t ! j)). \<not> is_Const a \<longrightarrow> (\<exists>k<j. ?t ! k = a)"
    using topo_sorted_nth[OF sorted] by blast
  have l: "\<not> is_Const r \<longrightarrow> ?t \<noteq> [] \<and> last ?t = r"
    using last_first_visits_root[OF uniq] by blast
  have e: "snd (engine_build_topo r ({}, [])) = ?t
           \<and> set (snd (engine_build_topo r ({}, []))) = subnodes r
           \<and> distinct (map ident (snd (engine_build_topo r ({}, []))))
           \<and> (\<forall>j<length (snd (engine_build_topo r ({}, []))).
                 \<forall>a\<in>set (prev (snd (engine_build_topo r ({}, [])) ! j)).
                   \<exists>k<j. snd (engine_build_topo r ({}, [])) ! k = a)
           \<and> last (snd (engine_build_topo r ({}, []))) = r"
    if nc: "no_Const r"
  proof -
    have et: "snd (engine_build_topo r ({}, [])) = ?t"
      using engine_topo(1)[OF nc uniq fresh] t by simp
    have es: "set ?t = subnodes r" using engine_topo(2)[OF nc uniq fresh] t by simp
    have eo: "\<forall>j<length ?t. \<forall>a\<in>set (prev (?t ! j)). \<exists>k<j. ?t ! k = a"
    proof (intro allI impI ballI)
      fix j a assume j: "j < length ?t" and a: "a \<in> set (prev (?t ! j))"
      have "?t ! j \<in> subnodes r" using j es nth_mem by blast
      then have "a \<in> subnodes r" using prev_subnodes[OF a] subnodes_trans by blast
      then have "\<not> is_Const a" using no_Const_subnodes[OF nc] by blast
      then show "\<exists>k<j. ?t ! k = a" using ord j a by blast
    qed
    have "\<not> is_Const r" using no_Const_subnodes[OF nc, of r] by simp
    then have el: "last ?t = r" using l by simp
    show ?thesis unfolding et using es d eo el by (intro conjI refl)
  qed
  show ?thesis unfolding t using s d ord l e unfolding t by (intro conjI refl impI; blast)
qed

theorem topo_postorder_witness:
  "unique_ids (subnodes (BinaryValue 3 AddValue (BinaryValue 2 MulValue (Value 0) (Value 1)) (Value 0)))
   \<and> fst (topo (BinaryValue 3 AddValue (BinaryValue 2 MulValue (Value 0) (Value 1)) (Value 0)) empty_state)
       = [Value 0, Value 1, BinaryValue 2 MulValue (Value 0) (Value 1),
          BinaryValue 3 AddValue (BinaryValue 2 MulValue (Value 0) (Value 1)) (Value 0)]
   \<and> snd (engine_build_topo
             (BinaryValue 3 AddValue (BinaryValue 2 MulValue (Value 0) (Value 1)) (Value 0)) ({}, []))
       = [Value 0, Value 1, BinaryValue 2 MulValue (Value 0) (Value 1),
          BinaryValue 3 AddValue (BinaryValue 2 MulValue (Value 0) (Value 1)) (Value 0)]"
proof -
  let ?r = "BinaryValue 3 AddValue (BinaryValue 2 MulValue (Value 0) (Value 1)) (Value 0)"
  have u: "unique_ids (subnodes ?r)" by (simp add: unique_ids_def)
  have f: "\<forall>x\<in>subnodes ?r. \<not> visited empty_state (ident x)" by (simp add: empty_state_def)
  have nc: "no_Const ?r" by simp
  note t = topo_postorder[OF u f]
  have a: "fst (topo ?r empty_state) = first_visits {} (postorder ?r)" using t by blast
  have b: "snd (engine_build_topo ?r ({}, [])) = first_visits {} (postorder ?r)" using t nc by blast
  show ?thesis using u a b by simp
qed

text \<open>
  Claim C3 as stated fails on mnist.py: a \<open>Const\<close> operand is reachable from the root and is
  an operand of it, yet it is not in the sequence; the sequence of a \<open>Const\<close> root is empty;
  and a second call of \<open>topo\<close> on a graph without \<open>Const\<close> nodes, which finds the flags
  set, returns the empty sequence.
\<close>

theorem topo_omits_Const:
  "Const 1 5 \<in> set (prev (BinaryValue 2 AddValue (Value 0) (Const 1 5)))
   \<and> Const 1 5 \<notin> set (fst (topo (BinaryValue 2 AddValue (Value 0) (Const 1 5)) empty_state))
   \<and> fst (topo (BinaryValue 2 AddValue (Value 0) (Const 1 5)) empty_state)
        = [Value 0, BinaryValue 2 AddValue (Value 0) (Const 1 5)]
   \<and> fst (topo (Const 1 5) empty_state) = []
   \<and> fst (topo (BinaryValue 2 AddValue (Value 0) (Value 1))
             (snd (topo (BinaryValue 2 AddValue (Value 0) (Value 1)) empty_state))) = []"
  by (simp add: topo_def empty_state_def mark_visited_def)

section \<open>The backward pass\<close>

lemma grad_update_cong:
  "(\<And>n. f n = g n) \<Longrightarrow> s\<lparr>grad := f\<rparr> = s\<lparr>grad := g\<rparr>"
  by (rule arg_cong[where f = "\<lambda>h. s\<lparr>grad := h\<rparr>"]) (rule ext)

lemma add_grad_simps [simp]:
  "data (add_grad i v s) = data s"
  "visited (add_grad i v s) = visited s"
  "next_id (add_grad i v s) = next_id s"
  "rng (add_grad i v s) = rng s"
  "grad (add_grad i v s) n = (if n = i then grad s i + v else grad s n)"
  by (simp_all add: add_grad_def)

lemma set_grad_simps [simp]:
  "data (set_grad i v s) = data s"
  "visited (set_grad i v s) = visited s"
  "next_id (set_grad i v s) = next_id s"
  "rng (set_grad i v s) = rng s"
  "grad (set_grad i v s) n = (if n = i then v else grad s n)"
  by (simp_all add: set_grad_def)

lemma set_data_simps [simp]:
  "grad (set_data i v s) = grad s"
  "visited (set_data i v s) = visited s"
  "next_id (set_data i v s) = next_id s"
  "rng (set_data i v s) = rng s"
  "data (set_data i v s) n = (if n = i then v else data s n)"
  by (simp_all add: set_data_def)

lemma shift_grad_simps [simp]:
  "data (shift_grad d s) = data s"
  "visited (shift_grad d s) = visited s"
  "next_id (shift_grad d s) = next_id s"
  "rng (shift_grad d s) = rng s"
  "grad (shift_grad d s) n = grad s n + d n"
  by (simp_all add: shift_grad_def)

lemma get_data_cong: "data s = data s' \<Longrightarrow> get_data n s = get_data n s'"
  by (cases n) auto

lemma get_data_add_grad [simp]: "get_data n (add_grad i v s) = get_data n s"
  by (rule get_data_cong) simp

lemma get_data_set_grad [simp]: "get_data n (set_grad i v s) = get_data n s"
  by (rule get_data_cong) simp

lemma get_data_shift_grad [simp]: "get_data n (shift_grad d s) = get_data n s"
  by (rule get_data_cong) simp

lemma state_eqI:
  "data s = data s' \<Longrightarrow> grad s = grad s' \<Longrightarrow> visited s = visited s' \<Longrightarrow> next_id s = next_id s'
     \<Longrightarrow> rng s = rng s' \<Longrightarrow> state.more s = state.more s' \<Longrightarrow> s = s'"
  by (rule state.equality)

lemma more_simps [simp]:
  "state.more (add_grad i v s) = state.more s"
  "state.more (set_grad i v s) = state.more s"
  "state.more (set_data i v s) = state.more s"
  "state.more (shift_grad d s) = state.more s"
  by (simp_all add: add_grad_def set_grad_def set_data_def shift_grad_def)

lemma contribution_zero: "n \<notin> ident ` set (prev c) \<Longrightarrow> contribution c s g n = 0"
  by (induction c s g n rule: contribution.induct) auto

lemma contribution_cong: "data s = data s' \<Longrightarrow> contribution c s = contribution c s'"
proof -
  assume d: "data s = data s'"
  have "contribution c s g n = contribution c s' g n" for g n
    using get_data_cong[OF d] d by (induction c s g n rule: contribution.induct) auto
  then show ?thesis by (intro ext)
qed

lemma node_backward_contribution:
  assumes "ident c \<notin> ident ` set (prev c)" "node_backward c s = Inr s'"
  shows "s' = shift_grad (contribution c s (grad s (ident c))) s"
proof (rule state_eqI)
  show "grad s' = grad (shift_grad (contribution c s (grad s (ident c))) s)"
    using assms
    by (induction c s rule: node_backward.induct)
       (auto simp: fun_eq_iff Let_def split: sum.splits if_splits)
qed (use assms in \<open>induction c s rule: node_backward.induct; auto simp: Let_def split: sum.splits if_splits\<close>)+

lemma run_backward_data:
  "run_backward L s = Inr s' \<Longrightarrow> data s' = data s \<and> visited s' = visited s
      \<and> next_id s' = next_id s \<and> rng s' = rng s"
proof (induction L arbitrary: s)
  case Nil
  then show ?case by simp
next
  case (Cons c cs)
  from Cons.prems obtain s1 where s1: "node_backward c s = Inr s1" "run_backward cs s1 = Inr s'"
    by (auto split: sum.splits)
  have "data s1 = data s \<and> visited s1 = visited s \<and> next_id s1 = next_id s \<and> rng s1 = rng s"
    using s1(1)
    by (induction c s rule: node_backward.induct) (auto simp: Let_def split: sum.splits if_splits)
  then show ?case using Cons.IH[OF s1(2)] by simp
qed

lemma operand_ids_Cons: "operand_ids (c # cs) = ident ` set (prev c) \<union> operand_ids cs"
  by (simp add: operand_ids_def)

lemma sum_contribution_zero:
  "n \<notin> operand_ids cs \<Longrightarrow> (\<Sum>c\<leftarrow>cs. contribution c s (g c) n) = 0"
  by (induction cs) (auto simp: operand_ids_Cons contribution_zero)

lemma run_backward_sum:
  assumes "no_later_use L" "run_backward L s = Inr s'"
  shows "grad s' n = grad s n + (\<Sum>c\<leftarrow>L. contribution c s (grad s' (ident c)) n)"
  using assms
proof (induction L arbitrary: s n)
  case Nil
  then show ?case by simp
next
  case (Cons c cs)
  from Cons.prems(2) obtain s1 where s1: "node_backward c s = Inr s1" "run_backward cs s1 = Inr s'"
    by (auto split: sum.splits)
  have self: "ident c \<notin> ident ` set (prev c)" and later: "ident c \<notin> operand_ids cs"
    and nl: "no_later_use cs"
    using Cons.prems(1) by (auto simp: operand_ids_Cons)
  have s1_eq: "s1 = shift_grad (contribution c s (grad s (ident c))) s"
    by (rule node_backward_contribution[OF self s1(1)])
  have cs1: "contribution d s1 = contribution d s" for d
    by (rule contribution_cong) (simp add: s1_eq)
  have IH: "grad s' m = grad s1 m + (\<Sum>d\<leftarrow>cs. contribution d s (grad s' (ident d)) m)" for m
    using Cons.IH[OF nl s1(2), of m] by (simp add: cs1)
  have "grad s' (ident c) = grad s1 (ident c)"
    using IH[of "ident c"] sum_contribution_zero[OF later] by simp
  also have "\<dots> = grad s (ident c)"
    by (simp add: s1_eq contribution_zero[OF self])
  finally have final: "grad s' (ident c) = grad s (ident c)" .
  show ?case using IH[of n] by (simp add: s1_eq final)
qed

lemma topo_sorted_operand:
  "topo_sorted S xs \<Longrightarrow> x \<in> set xs \<Longrightarrow> a \<in> set (prev x) \<Longrightarrow> \<not> is_Const a \<Longrightarrow> a \<in> S \<union> set xs"
proof (induction xs arbitrary: S)
  case Nil
  then show ?case by simp
next
  case (Cons y ys)
  show ?case
  proof (cases "x = y")
    case True
    then show ?thesis using Cons.prems by auto
  next
    case False
    then have "a \<in> insert y S \<union> set ys" using Cons.IH[of "insert y S"] Cons.prems by auto
    then show ?thesis by auto
  qed
qed

lemma no_later_use_rev:
  assumes "topo_sorted {} t" "distinct (map ident t)" "unique_ids U" "set t \<subseteq> U"
    "\<forall>x\<in>set t. set (prev x) \<subseteq> U" "\<forall>x\<in>set t. \<not> is_Const x"
  shows "no_later_use (rev t)"
  using assms
proof (induction t rule: rev_induct)
  case Nil
  then show ?case by simp
next
  case (snoc c us)
  have sorted_us: "topo_sorted {} us" and ops_c: "\<forall>a\<in>set (prev c). \<not> is_Const a \<longrightarrow> a \<in> set us"
    using snoc.prems(1) by (auto simp: topo_sorted_append)
  have IH: "no_later_use (rev us)"
    using snoc.IH sorted_us snoc.prems by auto
  have c_new: "ident c \<notin> ident ` set us" using snoc.prems(2) by auto
  have "ident a \<noteq> ident c" if x: "x \<in> set (us @ [c])" and a: "a \<in> set (prev x)" for x a
  proof (cases "is_Const a")
    case True
    have "a \<in> U" "c \<in> U" using snoc.prems(4,5) x a by auto
    moreover have "a \<noteq> c" using True snoc.prems(6) by auto
    ultimately show ?thesis using snoc.prems(3) by (auto simp: unique_ids_def)
  next
    case False
    have "a \<in> set us"
    proof (cases "x = c")
      case True
      then show ?thesis using ops_c a False by simp
    next
      case False': False
      then have "x \<in> set us" using x by simp
      then show ?thesis using topo_sorted_operand[OF sorted_us _ a False] by simp
    qed
    then have "ident a \<in> ident ` set us" by (rule imageI)
    then show ?thesis using c_new by metis
  qed
  then have "ident c \<notin> operand_ids (c # rev us)"
    by (force simp: operand_ids_def)
  then show ?case using IH by simp
qed

lemma visit_all_simps [simp]:
  "data (visit_all xs s) = data s"
  "grad (visit_all xs s) = grad s"
  "next_id (visit_all xs s) = next_id s"
  "rng (visit_all xs s) = rng s"
  by (simp_all add: visit_all_def)

lemma topo_order_facts:
  assumes uniq: "unique_ids (subnodes r)" and fresh: "\<forall>x\<in>subnodes r. \<not> visited s (ident x)"
  shows "topo_sorted {} (fst (topo r s))" "distinct (map ident (fst (topo r s)))"
    "set (fst (topo r s)) = {x \<in> subnodes r. \<not> is_Const x}"
    "no_later_use (rev (fst (topo r s)))"
    "snd (topo r s) = visit_all (postorder r) s"
proof -
  let ?t = "first_visits {} (postorder r)"
  have t: "topo r s = (?t, visit_all (postorder r) s)" by (rule topo_fresh[OF assms])
  have up: "unique_ids (set (postorder r))"
    using uniq postorder_subnodes by (auto simp: unique_ids_def)
  have sorted: "topo_sorted {} ?t"
    by (rule topo_sorted_first_visits[OF topo_sorted_postorder[of "{}" r] _ _ up]) auto
  have d: "distinct (map ident ?t)" by (rule distinct_first_visits)
  have st: "set ?t = {x \<in> subnodes r. \<not> is_Const x}"
    using set_first_visits[OF up, of "{}"] by (simp add: set_postorder)
  have sub: "\<forall>x\<in>set ?t. set (prev x) \<subseteq> subnodes r"
    using st prev_subnodes subnodes_trans by blast
  have nl: "no_later_use (rev ?t)"
    by (rule no_later_use_rev[OF sorted d uniq _ sub]) (use st in auto)
  show "topo_sorted {} (fst (topo r s))" "distinct (map ident (fst (topo r s)))"
    "set (fst (topo r s)) = {x \<in> subnodes r. \<not> is_Const x}"
    "no_later_use (rev (fst (topo r s)))"
    "snd (topo r s) = visit_all (postorder r) s"
    using sorted d st nl by (simp_all add: t)
qed

lemma backward_sum:
  assumes uniq: "unique_ids (subnodes r)" and fresh: "\<forall>x\<in>subnodes r. \<not> visited s (ident x)"
    and run: "backward r s = Inr s'"
  shows "grad s' n = (if n = ident r then 1 else grad s n)
           + (\<Sum>c\<leftarrow>rev (fst (topo r s)). contribution c s (grad s' (ident c)) n)"
proof -
  let ?s2 = "set_grad (ident r) 1 (snd (topo r s))"
  have run': "run_backward (rev (fst (topo r s))) ?s2 = Inr s'"
    using run by (simp add: backward_def split: prod.splits)
  have c: "contribution c ?s2 = contribution c s" for c
    by (rule contribution_cong) (simp add: topo_order_facts(5)[OF uniq fresh])
  have g: "grad ?s2 n = (if n = ident r then 1 else grad s n)"
    by (simp add: topo_order_facts(5)[OF uniq fresh])
  have "grad s' n = grad ?s2 n
          + (\<Sum>c\<leftarrow>rev (fst (topo r s)). contribution c ?s2 (grad s' (ident c)) n)"
    by (rule run_backward_sum[OF topo_order_facts(4)[OF uniq fresh] run'])
  then show ?thesis by (simp only: c g)
qed

lemma sum_list_two:
  assumes "distinct xs" "a \<in> set xs" "b \<in> set xs" "a \<noteq> b"
    "\<forall>x\<in>set xs. x \<noteq> a \<and> x \<noteq> b \<longrightarrow> f x = (0::real)"
  shows "(\<Sum>x\<leftarrow>xs. f x) = f a + f b"
proof -
  have "(\<Sum>x\<leftarrow>xs. f x) = sum f (set xs)"
    using assms(1) by (rule sum_list_distinct_conv_sum_set)
  also have "\<dots> = sum f {a, b}"
    by (rule sum.mono_neutral_right) (use assms in auto)
  also have "\<dots> = f a + f b" using assms(4) by simp
  finally show ?thesis .
qed

lemma add_grad_zero: "add_grad i 0 s = s"
  by (rule state_eqI) (auto simp: fun_eq_iff)

lemma py_pow_math_pow: "py_pow x y = Inr v \<longleftrightarrow> math_pow x y = Inr v"
  by (auto simp: py_pow_def math_pow_def)

lemma engine_node_backward_eq:
  "engine_node_backward c s = Inr s' \<longleftrightarrow> node_backward c s = Inr s'"
proof (cases c)
  case (UnaryValue i k a)
  then show ?thesis
  proof (cases k)
    case (PowValue y)
    show ?thesis
    proof (cases "math_pow (get_data a s) (y - 1)")
      case (Inl e)
      then have "\<And>v. py_pow (get_data a s) (y - 1) \<noteq> Inr v" by (simp add: py_pow_math_pow)
      then show ?thesis using Inl UnaryValue PowValue by (auto split: sum.splits)
    next
      case (Inr v)
      then have "py_pow (get_data a s) (y - 1) = Inr v" by (simp add: py_pow_math_pow)
      then show ?thesis using Inr UnaryValue PowValue by simp
    qed
  qed simp_all
next
  case (BinaryValue i k a b)
  then show ?thesis by (cases k) (auto simp: Let_def add_grad_zero)
qed simp_all

lemma engine_run_backward_eq:
  "engine_run_backward L s = Inr s' \<longleftrightarrow> run_backward L s = Inr s'"
proof (induction L arbitrary: s)
  case Nil
  then show ?case by simp
next
  case (Cons c cs)
  show ?case
  proof (cases "node_backward c s")
    case (Inl e)
    then have "\<And>s1. engine_node_backward c s \<noteq> Inr s1" by (simp add: engine_node_backward_eq)
    then show ?thesis using Inl by (auto split: sum.splits)
  next
    case (Inr s1)
    then have "engine_node_backward c s = Inr s1" by (simp add: engine_node_backward_eq)
    then show ?thesis using Inr Cons.IH[of s1] by simp
  qed
qed

lemma engine_backward_sum:
  assumes nc: "no_Const r" and uniq: "unique_ids (subnodes r)"
    and fresh: "\<forall>x\<in>subnodes r. \<not> visited s (ident x)"
    and run: "engine_backward r s = Inr s'"
  shows "grad s' n = (if n = ident r then 1 else grad s n)
           + (\<Sum>c\<leftarrow>rev (fst (topo r s)). contribution c s (grad s' (ident c)) n)"
proof -
  let ?s2 = "set_grad (ident r) 1 s"
  have "engine_run_backward (rev (fst (topo r s))) ?s2 = Inr s'"
    using run engine_topo(1)[OF nc uniq fresh] by (simp add: engine_backward_def split_beta)
  then have run': "run_backward (rev (fst (topo r s))) ?s2 = Inr s'"
    by (simp add: engine_run_backward_eq)
  have c: "contribution c ?s2 = contribution c s" for c
    by (rule contribution_cong) simp
  have g: "grad ?s2 n = (if n = ident r then 1 else grad s n)" by simp
  have "grad s' n = grad ?s2 n
          + (\<Sum>c\<leftarrow>rev (fst (topo r s)). contribution c ?s2 (grad s' (ident c)) n)"
    by (rule run_backward_sum[OF topo_order_facts(4)[OF uniq fresh] run'])
  then show ?thesis by (simp only: c g)
qed

lemma two_consumers_sum:
  assumes uniq: "unique_ids (subnodes r)" and fresh: "\<forall>x\<in>subnodes r. \<not> visited s (ident x)"
    and c1: "c1 \<in> set (fst (topo r s))" and c2: "c2 \<in> set (fst (topo r s))" and ne: "c1 \<noteq> c2"
    and x1: "x \<in> set (prev c1)" and x2: "x \<in> set (prev c2)"
    and only: "\<forall>c\<in>set (fst (topo r s)). x \<in> set (prev c) \<longrightarrow> c = c1 \<or> c = c2"
  shows "ident x \<noteq> ident r"
    and "(\<Sum>c\<leftarrow>rev (fst (topo r s)). contribution c s (g c) (ident x))
          = contribution c1 s (g c1) (ident x) + contribution c2 s (g c2) (ident x)"
proof -
  let ?t = "fst (topo r s)"
  let ?f = "\<lambda>c. contribution c s (g c) (ident x)"
  have st: "set ?t = {x \<in> subnodes r. \<not> is_Const x}" by (rule topo_order_facts(3)[OF uniq fresh])
  have c1r: "c1 \<in> subnodes r" using c1 st by simp
  have xr: "x \<in> subnodes r" using prev_subnodes[OF x1] c1r subnodes_trans by blast
  have "size x < size c1" by (rule prev_size[OF x1])
  then have "x \<noteq> r" using subnodes_size[OF c1r] by auto
  then show "ident x \<noteq> ident r" using uniq xr by (auto simp: unique_ids_def)
  have dist: "distinct (rev ?t)"
    using topo_order_facts(2)[OF uniq fresh] by (simp add: distinct_map)
  have zero: "\<forall>c\<in>set (rev ?t). c \<noteq> c1 \<and> c \<noteq> c2 \<longrightarrow> ?f c = 0"
  proof (intro ballI impI)
    fix c assume c: "c \<in> set (rev ?t)" and other: "c \<noteq> c1 \<and> c \<noteq> c2"
    have "ident x \<notin> ident ` set (prev c)"
    proof
      assume "ident x \<in> ident ` set (prev c)"
      then obtain a where a: "a \<in> set (prev c)" "ident a = ident x" by auto
      have "c \<in> subnodes r" using c st by simp
      then have "a \<in> subnodes r" using prev_subnodes[OF a(1)] subnodes_trans by blast
      then have "a = x" using uniq xr a(2) by (auto simp: unique_ids_def)
      then show False using only c a(1) other by auto
    qed
    then show "?f c = 0" by (rule contribution_zero)
  qed
  show "(\<Sum>c\<leftarrow>rev ?t. ?f c) = ?f c1 + ?f c2"
    by (rule sum_list_two[OF dist _ _ ne zero]) (use c1 c2 in auto)
qed

text \<open>
  Claim C1. First conjunct: the backward rule of every class of mnist.py and every closure
  of engine.py adds its contribution to the gradient of each operand (the new gradient is
  the old one plus \<open>contribution\<close>), for every node that is not its own operand. Second
  and third conjunct: when a node \<open>x\<close> of a graph is an operand of exactly two distinct
  nodes \<open>c1\<close> and \<open>c2\<close> of the order, a backward pass from the root that raises no
  exception, \<open>BaseValue.backward\<close> of mnist.py or \<open>Value.backward\<close> of engine.py, leaves
  the gradient of \<open>x\<close> equal to its gradient before the pass (0 for a new object) plus the
  contribution of \<open>c1\<close> plus the contribution of \<open>c2\<close>.
\<close>

theorem gradient_accumulation:
  assumes uniq: "unique_ids (subnodes r)" and fresh: "\<forall>x\<in>subnodes r. \<not> visited s (ident x)"
    and c1: "c1 \<in> set (fst (topo r s))" and c2: "c2 \<in> set (fst (topo r s))" and ne: "c1 \<noteq> c2"
    and x1: "x \<in> set (prev c1)" and x2: "x \<in> set (prev c2)"
    and only: "\<forall>c\<in>set (fst (topo r s)). x \<in> set (prev c) \<longrightarrow> c = c1 \<or> c = c2"
  shows "(\<forall>c s0 s1. ident c \<notin> ident ` set (prev c) \<longrightarrow>
            (node_backward c s0 = Inr s1 \<or> engine_node_backward c s0 = Inr s1) \<longrightarrow>
            (\<forall>n. grad s1 n = grad s0 n + contribution c s0 (grad s0 (ident c)) n))
       \<and> (backward r s = Inr s' \<longrightarrow>
            grad s' (ident x) = grad s (ident x)
              + contribution c1 s (grad s' (ident c1)) (ident x)
              + contribution c2 s (grad s' (ident c2)) (ident x))
       \<and> (no_Const r \<longrightarrow> engine_backward r s = Inr s' \<longrightarrow>
            grad s' (ident x) = grad s (ident x)
              + contribution c1 s (grad s' (ident c1)) (ident x)
              + contribution c2 s (grad s' (ident c2)) (ident x))"
proof -
  have rule: "\<forall>c s0 s1. ident c \<notin> ident ` set (prev c) \<longrightarrow>
            (node_backward c s0 = Inr s1 \<or> engine_node_backward c s0 = Inr s1) \<longrightarrow>
            (\<forall>n. grad s1 n = grad s0 n + contribution c s0 (grad s0 (ident c)) n)"
  proof (intro allI impI)
    fix c s0 s1 n
    assume self: "ident c \<notin> ident ` set (prev c)"
      and "node_backward c s0 = Inr s1 \<or> engine_node_backward c s0 = Inr s1"
    then have "node_backward c s0 = Inr s1" by (simp add: engine_node_backward_eq)
    then have "s1 = shift_grad (contribution c s0 (grad s0 (ident c))) s0"
      by (rule node_backward_contribution[OF self])
    then show "grad s1 n = grad s0 n + contribution c s0 (grad s0 (ident c)) n" by simp
  qed
  note two = two_consumers_sum[OF uniq fresh c1 c2 ne x1 x2 only]
  have a: "grad s' (ident x) = grad s (ident x)
              + contribution c1 s (grad s' (ident c1)) (ident x)
              + contribution c2 s (grad s' (ident c2)) (ident x)"
    if run: "backward r s = Inr s'"
    using backward_sum[OF uniq fresh run, of "ident x"] two(1) two(2)[of "\<lambda>c. grad s' (ident c)"]
    by simp
  have b: "grad s' (ident x) = grad s (ident x)
              + contribution c1 s (grad s' (ident c1)) (ident x)
              + contribution c2 s (grad s' (ident c2)) (ident x)"
    if nc: "no_Const r" and run: "engine_backward r s = Inr s'"
    using engine_backward_sum[OF nc uniq fresh run, of "ident x"] two(1)
      two(2)[of "\<lambda>c. grad s' (ident c)"]
    by simp
  show ?thesis using rule a b by blast
qed

lemma shift_grad_add_grad:
  "add_grad i v (shift_grad d s) = shift_grad d (add_grad i v s)"
  by (rule state_eqI) (auto simp: fun_eq_iff)

lemma node_backward_shift:
  assumes "prev c \<noteq> [] \<longrightarrow> d (ident c) = 0"
  shows "node_backward c (shift_grad d s) = map_sum id (shift_grad d) (node_backward c s)"
  using assms
  by (induction c s rule: node_backward.induct)
     (auto simp: Let_def shift_grad_add_grad split: sum.splits)

lemma run_backward_shift:
  assumes "\<forall>c\<in>set L. prev c \<noteq> [] \<longrightarrow> d (ident c) = 0"
  shows "run_backward L (shift_grad d s) = map_sum id (shift_grad d) (run_backward L s)"
  using assms
proof (induction L arbitrary: s)
  case Nil
  then show ?case by simp
next
  case (Cons c cs)
  have c: "node_backward c (shift_grad d s) = map_sum id (shift_grad d) (node_backward c s)"
    by (rule node_backward_shift) (use Cons.prems in simp)
  show ?case
  proof (cases "node_backward c s")
    case (Inl e)
    then show ?thesis using c by simp
  next
    case (Inr s1)
    then show ?thesis using c Cons.IH[of s1] Cons.prems by simp
  qed
qed

lemma reset_grads_simps [simp]:
  "data (reset_grads xs s) = data s"
  "visited (reset_grads xs s) = visited s"
  "next_id (reset_grads xs s) = next_id s"
  "rng (reset_grads xs s) = rng s"
  "state.more (reset_grads xs s) = state.more s"
  "grad (reset_grads xs s) n = (if n \<in> ident ` set xs then 0 else grad s n)"
  unfolding reset_grads_def by (induction xs arbitrary: s; simp; fail)+

lemma make_env_fields:
  "order (fst (make_env inputs expected l ps s0)) = fst (topo l s0)"
  "reverse_topo (fst (make_env inputs expected l ps s0)) = rev (fst (topo l s0))"
  "non_params (fst (make_env inputs expected l ps s0))
     = filter (\<lambda>p. ident p \<notin> ident ` set ps) (fst (topo l s0))"
  "params (fst (make_env inputs expected l ps s0)) = ps"
  "loss (fst (make_env inputs expected l ps s0)) = l"
  "inp (fst (make_env inputs expected l ps s0)) = inputs"
  "expected_onehot (fst (make_env inputs expected l ps s0)) = expected"
  "snd (make_env inputs expected l ps s0) = snd (topo l s0)"
  by (simp_all add: make_env_def split: prod.splits)

lemma main_backward_shift:
  assumes derived: "\<forall>c\<in>set (reverse_topo env). prev c \<noteq> [] \<longrightarrow>
      ident c = ident (loss env) \<or> ident c \<in> ident ` set (non_params env)"
  shows "main_backward env s =
     map_sum id (shift_grad (\<lambda>n. if n = ident (loss env) \<or> n \<in> ident ` set (non_params env)
                                  then 0 else grad s n))
       (main_backward env (s\<lparr>grad := (\<lambda>i. 0)\<rparr>))"
proof -
  let ?d = "\<lambda>n. if n = ident (loss env) \<or> n \<in> ident ` set (non_params env) then 0 else grad s n"
  let ?z = "s\<lparr>grad := (\<lambda>i. 0)\<rparr>"
  have pre: "set_grad (ident (loss env)) 1 (reset_grads (non_params env) s)
      = shift_grad ?d (set_grad (ident (loss env)) 1 (reset_grads (non_params env) ?z))"
    by (rule state_eqI) (auto simp: fun_eq_iff)
  have cond: "\<forall>c\<in>set (reverse_topo env). prev c \<noteq> [] \<longrightarrow> ?d (ident c) = 0"
    using derived by auto
  show ?thesis
    unfolding main_backward_def pre by (rule run_backward_shift[OF cond])
qed

lemma run_forward_grad:
  "run_forward L s = Inr s' \<Longrightarrow> grad s' = grad s"
proof (induction L arbitrary: s)
  case Nil
  then show ?case by simp
next
  case (Cons c cs)
  from Cons.prems obtain s1 where s1: "node_forward c s = Inr s1" "run_forward cs s1 = Inr s'"
    by (auto split: sum.splits)
  have "grad s1 = grad s"
    using s1(1)
    by (induction c s rule: node_forward.induct) (auto simp: Let_def split: sum.splits if_splits)
  then show ?case using Cons.IH[OF s1(2)] by simp
qed

lemma write_pixels_grad: "write_pixels xs ps s = Inr s' \<Longrightarrow> grad s' = grad s"
  by (induction xs ps s rule: write_pixels.induct) auto

lemma fold_set_data_grad: "grad (fold (\<lambda>e. set_data (ident e) v) xs s) = grad s"
  by (induction xs arbitrary: s) auto

lemma forward_grad: "forward env im s = Inr (l, s') \<Longrightarrow> grad s' = grad s"
  unfolding forward_def Let_def
  by (auto split: if_splits sum.splits dest!: run_forward_grad write_pixels_grad
           simp: fold_set_data_grad)

lemma fold_set_data_grad': "grad (fold (\<lambda>p s. set_data (ident p) (f p s) s) ps s) = grad s"
  by (induction ps arbitrary: s) auto

lemma fold_set_data_other:
  "n \<notin> ident ` set ps \<Longrightarrow> data (fold (\<lambda>p s. set_data (ident p) (f p s) s) ps s) n = data s n"
  by (induction ps arbitrary: s) auto

lemma update_params_data:
  "distinct (map ident ps) \<Longrightarrow> p \<in> set ps \<Longrightarrow>
   data (fold (\<lambda>p s. set_data (ident p) (data s (ident p) - 0.1 * grad s (ident p)) s) ps s) (ident p)
     = data s (ident p) - 0.1 * grad s (ident p)"
proof (induction ps arbitrary: s)
  case Nil
  then show ?case by simp
next
  case (Cons q qs)
  show ?case
  proof (cases "p = q")
    case True
    then have "ident p \<notin> ident ` set qs" using Cons.prems(1) by auto
    then show ?thesis using True by (simp add: fold_set_data_other)
  next
    case False
    then have pq: "p \<in> set qs" using Cons.prems(2) by simp
    then have "ident p \<in> ident ` set qs" by (rule imageI)
    then have "ident p \<noteq> ident q" using Cons.prems(1) by auto
    then show ?thesis using Cons.IH[OF _ pq] Cons.prems(1) by simp
  qed
qed

lemma main_backward_param:
  assumes env: "env = fst (make_env inputs expected l ps s0)"
    and leaves: "\<forall>c\<in>set (order env). ident c \<in> ident ` set ps \<longrightarrow> prev c = []"
    and lossnp: "ident l \<notin> ident ` set ps"
    and p: "p \<in> set ps"
    and run: "main_backward env s = Inr s'"
  shows "grad s' (ident p) = grad s (ident p) + example_gradient env s (ident p)"
proof -
  let ?d = "\<lambda>n. if n = ident (loss env) \<or> n \<in> ident ` set (non_params env) then 0 else grad s n"
  have np: "non_params env = filter (\<lambda>p. ident p \<notin> ident ` set ps) (order env)"
    and rt: "reverse_topo env = rev (order env)" and l: "loss env = l"
    by (simp_all add: env make_env_fields)
  have derived: "\<forall>c\<in>set (reverse_topo env). prev c \<noteq> [] \<longrightarrow>
      ident c = ident (loss env) \<or> ident c \<in> ident ` set (non_params env)"
  proof (intro ballI impI)
    fix c assume c: "c \<in> set (reverse_topo env)" and d: "prev c \<noteq> []"
    then have "ident c \<notin> ident ` set ps" using leaves rt by auto
    then have "c \<in> set (non_params env)" using c rt np by simp
    then show "ident c = ident (loss env) \<or> ident c \<in> ident ` set (non_params env)" by blast
  qed
  have eq: "main_backward env s = map_sum id (shift_grad ?d) (main_backward env (s\<lparr>grad := (\<lambda>i. 0)\<rparr>))"
    by (rule main_backward_shift[OF derived])
  then obtain z where z: "main_backward env (s\<lparr>grad := (\<lambda>i. 0)\<rparr>) = Inr z" "s' = shift_grad ?d z"
    using run by (cases "main_backward env (s\<lparr>grad := (\<lambda>i. 0)\<rparr>)") auto
  have "ident p \<in> ident ` set ps" using p by (rule imageI)
  then have "ident p \<noteq> ident (loss env)" "ident p \<notin> ident ` set (non_params env)"
    using lossnp l np by auto
  then have "grad s' (ident p) = grad z (ident p) + grad s (ident p)"
    using z(2) by simp
  then show ?thesis using z(1) by (simp add: example_gradient_def)
qed

lemma batch_loop_param:
  assumes env: "env = fst (make_env inputs expected l ps s0)"
    and leaves: "\<forall>c\<in>set (order env). ident c \<in> ident ` set ps \<longrightarrow> prev c = []"
    and lossnp: "ident l \<notin> ident ` set ps"
    and p: "p \<in> set ps"
    and run: "batch_loop env batch (bl, s) = Inr (bl', s')"
  shows "grad s' (ident p) = grad s (ident p) + summed_gradient env batch s (ident p)"
  using run
proof (induction batch arbitrary: bl s)
  case Nil
  then show ?case by simp
next
  case (Cons im ims)
  show ?case
  proof (cases im)
    case None
    then show ?thesis using Cons by simp
  next
    case (Some i)
    from Cons.prems Some obtain lv s1 s2 where
      f: "forward env i s = Inr (lv, s1)" and b: "main_backward env s1 = Inr s2"
      and r: "batch_loop env ims (bl + lv, s2) = Inr (bl', s')"
      by (auto split: sum.splits prod.splits)
    have "grad s2 (ident p) = grad s1 (ident p) + example_gradient env s1 (ident p)"
      by (rule main_backward_param[OF env leaves lossnp p b])
    moreover have "grad s1 = grad s" by (rule forward_grad[OF f])
    ultimately show ?thesis using Cons.IH[OF r] Some f b by simp
  qed
qed

text \<open>
  Claim C10. The reset at the start of the closure \<open>backward\<close> clears the gradients of the
  nodes of the order that are not parameters and no other gradient. For a parameter \<open>p\<close>
  (parameters are leaves and the loss is not one): one pass adds to the gradient of \<open>p\<close> the
  gradient of that example; the batch loop adds the sum over the records of the batch
  that are not \<open>None\<close>; and after \<open>zero_grad\<close>, the loop and \<open>update_params\<close>, the data of
  \<open>p\<close> has decreased by 0.1 times that sum.
\<close>

theorem parameter_gradients_accumulate:
  assumes env: "env = fst (make_env inputs expected l ps s0)"
    and leaves: "\<forall>c\<in>set (order env). ident c \<in> ident ` set ps \<longrightarrow> prev c = []"
    and lossnp: "ident l \<notin> ident ` set ps"
    and p: "p \<in> set ps"
  shows "(\<forall>n. grad (reset_grads (non_params env) s) n
              = (if n \<in> ident ` set (order env) \<and> n \<notin> ident ` set ps then 0 else grad s n))
     \<and> (main_backward env s = Inr s' \<longrightarrow>
          grad s' (ident p) = grad s (ident p) + example_gradient env s (ident p))
     \<and> (batch_loop env batch (bl, s) = Inr (bl', s'') \<longrightarrow>
          grad s'' (ident p) = grad s (ident p) + summed_gradient env batch s (ident p))
     \<and> (p \<in> set (order env) \<longrightarrow> distinct (map ident ps) \<longrightarrow>
          train_batch env batch s = Inr (bl', s3) \<longrightarrow>
          (\<exists>s1. batch_loop env batch (0, main_zero_grad env s) = Inr (bl', s1)
             \<and> grad s1 (ident p) = summed_gradient env batch (main_zero_grad env s) (ident p)
             \<and> data s3 (ident p) = data s1 (ident p) - 0.1 * grad s1 (ident p)))"
proof -
  have np: "non_params env = filter (\<lambda>p. ident p \<notin> ident ` set ps) (order env)"
    and ps: "params env = ps"
    by (simp_all add: env make_env_fields)
  have a: "\<forall>n. grad (reset_grads (non_params env) s) n
              = (if n \<in> ident ` set (order env) \<and> n \<notin> ident ` set ps then 0 else grad s n)"
    by (auto simp: np)
  have b: "main_backward env s = Inr s' \<longrightarrow>
          grad s' (ident p) = grad s (ident p) + example_gradient env s (ident p)"
    using main_backward_param[OF env leaves lossnp p] by blast
  have c: "batch_loop env batch (bl, s) = Inr (bl', s'') \<longrightarrow>
          grad s'' (ident p) = grad s (ident p) + summed_gradient env batch s (ident p)"
    using batch_loop_param[OF env leaves lossnp p] by blast
  have d: "\<exists>s1. batch_loop env batch (0, main_zero_grad env s) = Inr (bl', s1)
             \<and> grad s1 (ident p) = summed_gradient env batch (main_zero_grad env s) (ident p)
             \<and> data s3 (ident p) = data s1 (ident p) - 0.1 * grad s1 (ident p)"
    if po: "p \<in> set (order env)" and dist: "distinct (map ident ps)"
      and run: "train_batch env batch s = Inr (bl', s3)"
  proof -
    from run obtain s1 where s1: "batch_loop env batch (0, main_zero_grad env s) = Inr (bl', s1)"
      and s3: "s3 = update_params env s1"
      by (auto simp: train_batch_def split: sum.splits prod.splits)
    have "ident p \<in> ident ` set (order env)" using po by (rule imageI)
    then have z: "grad (main_zero_grad env s) (ident p) = 0"
      by (simp add: main_zero_grad_def)
    have g: "grad s1 (ident p) = summed_gradient env batch (main_zero_grad env s) (ident p)"
      using batch_loop_param[OF env leaves lossnp p s1] z by simp
    have "data s3 (ident p) = data s1 (ident p) - 0.1 * grad s1 (ident p)"
      unfolding s3 update_params_def ps by (rule update_params_data[OF dist p])
    then show ?thesis using s1 g by blast
  qed
  show ?thesis using a b c d by blast
qed

theorem gradient_accumulation_witness:
  "unique_ids (subnodes (BinaryValue 3 MulValue (BinaryValue 1 AddValue (Value 0) (Value 4))
            (BinaryValue 2 MulValue (Value 0) (Value 4))))
   \<and> (\<exists>s'. backward (BinaryValue 3 MulValue (BinaryValue 1 AddValue (Value 0) (Value 4))
            (BinaryValue 2 MulValue (Value 0) (Value 4)))
          (empty_state\<lparr>data := (\<lambda>i. 0)(0 := 2, 4 := 3, 1 := 5, 2 := 6, 3 := 30)\<rparr>) = Inr s'
        \<and> grad s' 1 = 6 \<and> grad s' 2 = 5 \<and> grad s' 0 = 1 * 6 + 3 * 5)"
proof -
  let ?x = "Value 0" and ?y = "Value 4"
  let ?c1 = "BinaryValue 1 AddValue ?x ?y" and ?c2 = "BinaryValue 2 MulValue ?x ?y"
  let ?r = "BinaryValue 3 MulValue ?c1 ?c2"
  let ?s = "empty_state\<lparr>data := (\<lambda>i. 0)(0 := 2, 4 := 3, 1 := 5, 2 := 6, 3 := 30)\<rparr>"
  have u: "unique_ids (subnodes ?r)" by (simp add: unique_ids_def)
  have f: "\<forall>x\<in>subnodes ?r. \<not> visited ?s (ident x)" by (simp add: empty_state_def)
  have t: "fst (topo ?r ?s) = [?x, ?y, ?c1, ?c2, ?r]"
    by (simp add: topo_def empty_state_def mark_visited_def)
  obtain s' where run: "backward ?r ?s = Inr s'" and g1: "grad s' 1 = 6" and g2: "grad s' 2 = 5"
    by (simp add: backward_def topo_def empty_state_def mark_visited_def
        add_grad_def set_grad_def Let_def)
  have "backward ?r ?s = Inr s' \<longrightarrow> grad s' (ident ?x) = grad ?s (ident ?x)
            + contribution ?c1 ?s (grad s' (ident ?c1)) (ident ?x)
            + contribution ?c2 ?s (grad s' (ident ?c2)) (ident ?x)"
    using gradient_accumulation[OF u f, of ?c1 ?c2 ?x s'] unfolding t by simp
  then have "grad s' 0 = 1 * 6 + 3 * 5" using run g1 g2 by (simp add: empty_state_def)
  then show ?thesis using u run g1 g2 by blast
qed

declare add_grad_zero [simp]

text \<open>
  Claim C5. The forward value of \<open>Max\<close> is the data of the left operand when it is
  strictly greater than the data of the right operand, and the data of the right operand
  otherwise, in mnist.py (a sum of two products with comparisons) and in engine.py (the
  builtin \<open>max\<close>); the backward rule adds the whole gradient of the node to the gradient
  of the left operand in the first case and to that of the right operand otherwise, ties
  included, and changes nothing else, in both files.
\<close>

theorem Max_forward_backward:
  "node_forward (BinaryValue i MaxValue a b) s
     = Inr (set_data i (if get_data a s > get_data b s then get_data a s else get_data b s) s)
   \<and> node_backward (BinaryValue i MaxValue a b) s
     = Inr (add_grad (if get_data a s > get_data b s then ident a else ident b) (grad s i) s)
   \<and> engine_Max_data x y = (if x > y then x else y)
   \<and> engine_node_backward (BinaryValue i MaxValue a b) s
     = Inr (add_grad (if get_data a s > get_data b s then ident a else ident b) (grad s i) s)"
  by (simp add: Let_def engine_Max_data_def)

text \<open>
  Claim C2, as amended. \<open>BaseValue.backward\<close> of mnist.py and \<open>Value.backward\<close> of
  engine.py set the gradient of the root to 1 and leave every other gradient as it was,
  and then run the backward rules over the reversed topological order; the closure
  \<open>backward\<close> of \<open>make_main\<close> first sets to 0 the gradients of the nodes of the cached
  order that are not parameters, and only these. In all three, each final gradient is the
  value so prepared plus the contributions of the nodes of the order.
\<close>

theorem backward_sets_root_only:
  assumes uniq: "unique_ids (subnodes r)" and fresh: "\<forall>x\<in>subnodes r. \<not> visited s (ident x)"
  shows "backward r s = run_backward (rev (fst (topo r s))) (set_grad (ident r) 1 (snd (topo r s)))
     \<and> (\<forall>n. grad (set_grad (ident r) 1 (snd (topo r s))) n = (if n = ident r then 1 else grad s n))
     \<and> topo_sorted {} (fst (topo r s))
     \<and> (backward r s = Inr s' \<longrightarrow>
          (\<forall>n. grad s' n = (if n = ident r then 1 else grad s n)
                 + (\<Sum>c\<leftarrow>rev (fst (topo r s)). contribution c s (grad s' (ident c)) n)))
     \<and> (no_Const r \<longrightarrow>
          engine_backward r s
            = engine_run_backward (rev (fst (topo r s))) (set_grad (ident r) 1 s)
          \<and> (engine_backward r s = Inr s' \<longrightarrow>
               (\<forall>n. grad s' n = (if n = ident r then 1 else grad s n)
                      + (\<Sum>c\<leftarrow>rev (fst (topo r s)). contribution c s (grad s' (ident c)) n))))
     \<and> (env = fst (make_env inputs expected r ps s) \<longrightarrow>
          main_backward env s2
            = run_backward (rev (order env)) (set_grad (ident r) 1 (reset_grads (non_params env) s2))
          \<and> order env = fst (topo r s)
          \<and> (\<forall>n. grad (set_grad (ident r) 1 (reset_grads (non_params env) s2)) n
                 = (if n = ident r then 1
                    else if n \<in> ident ` set (order env) \<and> n \<notin> ident ` set ps then 0
                    else grad s2 n))
          \<and> (main_backward env s2 = Inr s3 \<longrightarrow>
               (\<forall>n. grad s3 n
                  = (if n = ident r then 1
                     else if n \<in> ident ` set (order env) \<and> n \<notin> ident ` set ps then 0
                     else grad s2 n)
                    + (\<Sum>c\<leftarrow>rev (order env). contribution c s2 (grad s3 (ident c)) n))))"
proof -
  have a: "backward r s = run_backward (rev (fst (topo r s))) (set_grad (ident r) 1 (snd (topo r s)))"
    by (simp add: backward_def split: prod.splits)
  have b: "\<forall>n. grad (set_grad (ident r) 1 (snd (topo r s))) n = (if n = ident r then 1 else grad s n)"
    by (simp add: topo_order_facts(5)[OF uniq fresh])
  have c: "topo_sorted {} (fst (topo r s))" by (rule topo_order_facts(1)[OF uniq fresh])
  have d: "backward r s = Inr s' \<longrightarrow>
          (\<forall>n. grad s' n = (if n = ident r then 1 else grad s n)
                 + (\<Sum>c\<leftarrow>rev (fst (topo r s)). contribution c s (grad s' (ident c)) n))"
    using backward_sum[OF uniq fresh] by blast
  have e: "main_backward env s2
            = run_backward (rev (order env)) (set_grad (ident r) 1 (reset_grads (non_params env) s2))
          \<and> order env = fst (topo r s)
          \<and> (\<forall>n. grad (set_grad (ident r) 1 (reset_grads (non_params env) s2)) n
                 = (if n = ident r then 1
                    else if n \<in> ident ` set (order env) \<and> n \<notin> ident ` set ps then 0
                    else grad s2 n))
          \<and> (main_backward env s2 = Inr s3 \<longrightarrow>
               (\<forall>n. grad s3 n
                  = (if n = ident r then 1
                     else if n \<in> ident ` set (order env) \<and> n \<notin> ident ` set ps then 0
                     else grad s2 n)
                    + (\<Sum>c\<leftarrow>rev (order env). contribution c s2 (grad s3 (ident c)) n)))"
    if env: "env = fst (make_env inputs expected r ps s)"
  proof -
    let ?pre = "set_grad (ident r) 1 (reset_grads (non_params env) s2)"
    have np: "non_params env = filter (\<lambda>p. ident p \<notin> ident ` set ps) (order env)"
      and rt: "reverse_topo env = rev (order env)" and l: "loss env = r"
      and ord: "order env = fst (topo r s)"
      by (simp_all add: env make_env_fields)
    have e1: "main_backward env s2 = run_backward (rev (order env)) ?pre"
      by (simp add: main_backward_def rt l)
    have e2: "\<forall>n. grad ?pre n
                 = (if n = ident r then 1
                    else if n \<in> ident ` set (order env) \<and> n \<notin> ident ` set ps then 0
                    else grad s2 n)"
      by (auto simp: np)
    have e3: "\<forall>n. grad s3 n
                  = (if n = ident r then 1
                     else if n \<in> ident ` set (order env) \<and> n \<notin> ident ` set ps then 0
                     else grad s2 n)
                    + (\<Sum>c\<leftarrow>rev (order env). contribution c s2 (grad s3 (ident c)) n)"
      if run: "main_backward env s2 = Inr s3"
    proof
      fix n
      have nl: "no_later_use (rev (order env))"
        unfolding ord by (rule topo_order_facts(4)[OF uniq fresh])
      have run': "run_backward (rev (order env)) ?pre = Inr s3" using run e1 by simp
      have cc: "contribution c ?pre = contribution c s2" for c
        by (rule contribution_cong) simp
      have "grad s3 n = grad ?pre n
          + (\<Sum>c\<leftarrow>rev (order env). contribution c ?pre (grad s3 (ident c)) n)"
        by (rule run_backward_sum[OF nl run'])
      then show "grad s3 n
                  = (if n = ident r then 1
                     else if n \<in> ident ` set (order env) \<and> n \<notin> ident ` set ps then 0
                     else grad s2 n)
                    + (\<Sum>c\<leftarrow>rev (order env). contribution c s2 (grad s3 (ident c)) n)"
        using e2 by (simp only: cc)
    qed
    show ?thesis using e1 ord e2 e3 by blast
  qed
  have eng: "engine_backward r s
            = engine_run_backward (rev (fst (topo r s))) (set_grad (ident r) 1 s)
          \<and> (engine_backward r s = Inr s' \<longrightarrow>
               (\<forall>n. grad s' n = (if n = ident r then 1 else grad s n)
                      + (\<Sum>c\<leftarrow>rev (fst (topo r s)). contribution c s (grad s' (ident c)) n)))"
    if nc: "no_Const r"
  proof -
    have "engine_backward r s
            = engine_run_backward (rev (fst (topo r s))) (set_grad (ident r) 1 s)"
      using engine_topo(1)[OF nc uniq fresh] by (simp add: engine_backward_def split_beta)
    then show ?thesis using engine_backward_sum[OF nc uniq fresh] by blast
  qed
  show ?thesis using a b c d e eng by blast
qed

theorem backward_sets_root_only_witness:
  "unique_ids (subnodes (BinaryValue 2 AddValue (Value 0) (Value 1)))
   \<and> (\<exists>s'. backward (BinaryValue 2 AddValue (Value 0) (Value 1))
             (empty_state\<lparr>grad := (\<lambda>i. 0)(0 := 5)\<rparr>) = Inr s'
          \<and> grad s' 0 = 5 + 1 \<and> grad s' 1 = 0 + 1 \<and> grad s' 2 = 1)"
proof -
  let ?r = "BinaryValue 2 AddValue (Value 0) (Value 1)"
  let ?s = "empty_state\<lparr>grad := (\<lambda>i. 0)(0 := 5)\<rparr>"
  have u: "unique_ids (subnodes ?r)" by (simp add: unique_ids_def)
  have f: "\<forall>x\<in>subnodes ?r. \<not> visited ?s (ident x)" by (simp add: empty_state_def)
  have t: "fst (topo ?r ?s) = [Value 0, Value 1, ?r]"
    by (simp add: topo_def empty_state_def mark_visited_def)
  obtain s' where run: "backward ?r ?s = Inr s'"
    by (simp add: backward_def topo_def empty_state_def mark_visited_def
        add_grad_def set_grad_def Let_def)
  have "\<forall>n. grad s' n = (if n = ident ?r then 1 else grad ?s n)
                 + (\<Sum>c\<leftarrow>rev (fst (topo ?r ?s)). contribution c ?s (grad s' (ident c)) n)"
    using backward_sets_root_only[OF u f, of s'] run by blast
  then have g: "\<forall>n. grad s' n = (if n = 2 then 1 else grad ?s n)
                 + ((if n = 0 then grad s' 2 else 0) + (if n = Suc 0 then grad s' 2 else 0))"
    unfolding t by simp
  have g2: "grad s' 2 = 1" using g[rule_format, of 2] by simp
  have g0: "grad s' 0 = 5 + 1" using g[rule_format, of 0] g2 by (simp add: empty_state_def)
  have g1: "grad s' 1 = 0 + 1" using g[rule_format, of 1] g2 by (simp add: empty_state_def)
  show ?thesis using u run g0 g1 g2 by blast
qed

text \<open>
  Claim C2 as stated fails: a leaf whose gradient is 5 before the pass ends with 6 under
  \<open>BaseValue.backward\<close>, under \<open>Value.backward\<close> of engine.py, and under the closure of
  \<open>make_main\<close> when the leaf is a parameter; setting every other gradient to 0 first
  would give 1.
\<close>

theorem backward_keeps_old_gradients:
  "map_sum id (\<lambda>s'. grad s' 0)
      (backward (BinaryValue 2 AddValue (Value 0) (Value 1)) (empty_state\<lparr>grad := (\<lambda>i. 0)(0 := 5)\<rparr>))
     = Inr 6
   \<and> map_sum id (\<lambda>s'. grad s' 0)
      (engine_backward (BinaryValue 2 AddValue (Value 0) (Value 1))
         (empty_state\<lparr>grad := (\<lambda>i. 0)(0 := 5)\<rparr>))
     = Inr 6
   \<and> map_sum id (\<lambda>s'. grad s' 0)
      (backward_as_specified (BinaryValue 2 AddValue (Value 0) (Value 1))
         (empty_state\<lparr>grad := (\<lambda>i. 0)(0 := 5)\<rparr>))
     = Inr 1
   \<and> map_sum id (\<lambda>s'. grad s' 0)
      (main_backward (fst (make_env [] [] (BinaryValue 2 AddValue (Value 0) (Value 1)) [Value 0] empty_state))
         (empty_state\<lparr>grad := (\<lambda>i. 0)(0 := 5)\<rparr>))
     = Inr 6"
  by (simp add: backward_def backward_as_specified_def main_backward_def make_env_def topo_def
      engine_backward_def engine_build_topo.simps
      empty_state_def mark_visited_def add_grad_def set_grad_def reset_grads_def Let_def)

lemma batch_loop_filter:
  "batch_loop env batch (bl, s) = batch_loop env (filter (\<lambda>im. im \<noteq> None) batch) (bl, s)"
proof (induction batch arbitrary: bl s)
  case Nil
  then show ?case by simp
next
  case (Cons im ims)
  then show ?case by (cases im) (auto split: sum.splits)
qed

lemma batch_loop_all_None:
  "batch_loop env (replicate k None) (bl, s) = Inr (bl, s)"
  by (induction k) auto

lemma grouper_group_length:
  "g \<in> set (grouper n xs fillvalue) \<Longrightarrow> int (length g) = n"
proof (cases "0 < n")
  case True
  assume g: "g \<in> set (grouper n xs fillvalue)"
  from grouper_pos[OF True, of xs fillvalue]
  obtain gs cur where r: "grouper n xs fillvalue = gs @ [cur @ replicate (nat (n - int (length cur))) fillvalue]"
      "int (length cur) < n" "\<forall>g\<in>set gs. int (length g) = n"
    by blast
  then show ?thesis using g by auto
next
  case False
  assume g: "g \<in> set (grouper n xs fillvalue)"
  have "grouper n xs fillvalue = []"
    using False by (simp add: grouper_def grouper_loop_nonpos)
  then show ?thesis using g by simp
qed

lemma grouper_concat:
  assumes "0 < n"
  shows "\<exists>m. concat (grouper n xs fillvalue) = xs @ replicate m fillvalue \<and> 0 < m \<and> int m \<le> n"
proof -
  from grouper_pos[OF assms, of xs fillvalue]
  obtain gs cur where r: "grouper n xs fillvalue = gs @ [cur @ replicate (nat (n - int (length cur))) fillvalue]"
      "int (length cur) < n" "concat gs @ cur = xs"
    by blast
  have "concat (grouper n xs fillvalue) = xs @ replicate (nat (n - int (length cur))) fillvalue"
    using r(1,3) by (metis append.assoc append_Nil2 concat.simps(1) concat.simps(2) concat_append)
  moreover have "0 < nat (n - int (length cur))" "int (nat (n - int (length cur))) \<le> n"
    using r(2) by auto
  ultimately show ?thesis by blast
qed

text \<open>
  Claim C8. Seven elements in groups of three with fill value \<open>None\<close> give
  \<open>[[1,2,3],[4,5,6],[7,None,None]]\<close>; every group of a result has exactly \<open>n\<close> elements; for
  a positive \<open>n\<close> the groups, concatenated, are the input followed by between 1 and \<open>n\<close>
  fill values, so no record is dropped or repeated; and the batch loop does nothing for a
  \<open>None\<close> entry: it behaves as on the batch without its \<open>None\<close> entries, and a batch of
  \<open>None\<close> entries alone leaves the loss and the state unchanged.
\<close>

theorem grouper_pads_and_loop_skips:
  "grouper 3 [Some 1, Some 2, Some 3, Some 4, Some 5, Some 6, Some (7::int)] None
      = [[Some 1, Some 2, Some 3], [Some 4, Some 5, Some 6], [Some 7, None, None]]
   \<and> (\<forall>g\<in>set (grouper n xs fillvalue). int (length g) = n)
   \<and> (0 < n \<longrightarrow> (\<exists>m. concat (grouper n xs fillvalue) = xs @ replicate m fillvalue \<and> 0 < m \<and> int m \<le> n))
   \<and> batch_loop env (None # ims) (batch_loss, s) = batch_loop env ims (batch_loss, s)
   \<and> batch_loop env batch (batch_loss, s)
        = batch_loop env (filter (\<lambda>im. im \<noteq> None) batch) (batch_loss, s)
   \<and> batch_loop env (replicate k None) (batch_loss, s) = Inr (batch_loss, s)"
proof -
  have a: "grouper 3 [Some 1, Some 2, Some 3, Some 4, Some 5, Some 6, Some (7::int)] None
      = [[Some 1, Some 2, Some 3], [Some 4, Some 5, Some 6], [Some 7, None, None]]"
    by (simp add: grouper_def Let_def numeral_eq_Suc)
  have b: "\<forall>g\<in>set (grouper n xs fillvalue). int (length g) = n"
    by (intro ballI) (rule grouper_group_length)
  have c: "0 < n \<longrightarrow> (\<exists>m. concat (grouper n xs fillvalue) = xs @ replicate m fillvalue \<and> 0 < m \<and> int m \<le> n)"
    by (intro impI) (rule grouper_concat)
  have d: "batch_loop env (None # ims) (batch_loss, s) = batch_loop env ims (batch_loss, s)"
    by simp
  show ?thesis
    using a b c d batch_loop_filter[of env batch batch_loss s] batch_loop_all_None[of env k batch_loss s]
    by (intro conjI)
qed

theorem grouper_pads_and_loop_skips_witness:
  "length (grouper 3 [10, 20, 30, 40::nat] 0 ! 1) = 3
   \<and> grouper 3 [10, 20, 30, 40::nat] 0 = [[10, 20, 30], [40, 0, 0]]
   \<and> (\<exists>m. concat (grouper 3 [10, 20, 30, 40::nat] 0) = [10, 20, 30, 40] @ replicate m 0 \<and> 0 < m \<and> m \<le> 3)"
proof -
  have e: "grouper 3 [10, 20, 30, 40::nat] 0 = [[10, 20, 30], [40, 0, 0]]"
    by (simp add: grouper_def Let_def numeral_eq_Suc)
  have "\<forall>g\<in>set (grouper 3 [10, 20, 30, 40::nat] 0). int (length g) = 3"
    using grouper_pads_and_loop_skips[of 3 "[10, 20, 30, 40::nat]" 0] by blast
  moreover have "grouper 3 [10, 20, 30, 40::nat] 0 ! 1 \<in> set (grouper 3 [10, 20, 30, 40::nat] 0)"
    unfolding e by simp
  ultimately have l: "length (grouper 3 [10, 20, 30, 40::nat] 0 ! 1) = 3" by fastforce
  have "(0::int) < 3 \<longrightarrow> (\<exists>m. concat (grouper 3 [10, 20, 30, 40::nat] 0) = [10, 20, 30, 40] @ replicate m 0 \<and> 0 < m \<and> int m \<le> 3)"
    using grouper_pads_and_loop_skips[of 3 "[10, 20, 30, 40::nat]" 0] by blast
  then have "\<exists>m. concat (grouper 3 [10, 20, 30, 40::nat] 0) = [10, 20, 30, 40] @ replicate m 0 \<and> 0 < m \<and> m \<le> 3"
    by simp
  then show ?thesis using l e by blast
qed

theorem parameter_gradients_accumulate_witness:
  "Value 0 \<in> set [Value 0] \<and> ident (BinaryValue 2 MulValue (Value 0) (Value 1)) \<notin> ident ` set [Value 0]
   \<and> (\<exists>bl s3. train_batch (fst (make_env [Value 1] [Value 3] (BinaryValue 2 MulValue (Value 0) (Value 1))
                                  [Value 0] empty_state))
                  [Some \<lparr>label = 0, pixels = [CHR 0xFF]\<rparr>, None, Some \<lparr>label = 0, pixels = [CHR 0xFF]\<rparr>]
                  (empty_state\<lparr>data := (\<lambda>i. 0)(0 := 2)\<rparr>) = Inr (bl, s3)
         \<and> bl = 4 \<and> data s3 0 = 2 - 0.1 * (1 + 1)
         \<and> (\<exists>s1::state. grad s1 0 = 1 + 1 \<and> data s3 0 = data s1 0 - 0.1 * grad s1 0))"
proof -
  let ?l = "BinaryValue 2 MulValue (Value 0) (Value 1)"
  let ?env = "fst (make_env [Value 1] [Value 3] ?l [Value 0] empty_state)"
  let ?im = "\<lparr>label = 0, pixels = [CHR 0xFF]\<rparr>"
  let ?batch = "[Some ?im, None, Some ?im]"
  let ?s = "empty_state\<lparr>data := (\<lambda>i. 0)(0 := 2)\<rparr>"
  have ord: "order ?env = [Value 0, Value 1, ?l]"
    by (simp add: make_env_def topo_def empty_state_def mark_visited_def)
  have leaves: "\<forall>c\<in>set (order ?env). ident c \<in> ident ` set [Value 0] \<longrightarrow> prev c = []"
    unfolding ord by simp
  have lossnp: "ident ?l \<notin> ident ` set [Value 0]" by simp
  have p: "Value 0 \<in> set [Value 0]" by simp
  obtain bl s3 where run: "train_batch ?env ?batch ?s = Inr (bl, s3)" and bl: "bl = 4"
    and d3: "data s3 0 = 2 - 0.1 * (1 + 1)"
    by (simp add: train_batch_def forward_def main_backward_def main_zero_grad_def update_params_def
        reset_grads_def make_env_def topo_def empty_state_def mark_visited_def add_grad_def
        set_grad_def set_data_def Let_def)
  have po: "Value 0 \<in> set (order ?env)" unfolding ord by simp
  have "\<exists>s1. batch_loop ?env ?batch (0, main_zero_grad ?env ?s) = Inr (bl, s1)
             \<and> grad s1 (ident (Value 0)) = summed_gradient ?env ?batch (main_zero_grad ?env ?s) (ident (Value 0))
             \<and> data s3 (ident (Value 0)) = data s1 (ident (Value 0)) - 0.1 * grad s1 (ident (Value 0))"
    using parameter_gradients_accumulate[OF refl leaves lossnp p,
        where batch = ?batch and s = ?s and bl' = bl and ?s3.0 = s3] po run
    by simp
  then obtain s1 where s1: "batch_loop ?env ?batch (0, main_zero_grad ?env ?s) = Inr (bl, s1)"
    "data s3 0 = data s1 0 - 0.1 * grad s1 0"
    by auto
  have g1: "grad s1 0 = 1 + 1"
    using s1(1)
    by (simp add: forward_def main_backward_def main_zero_grad_def
        reset_grads_def make_env_def topo_def empty_state_def mark_visited_def add_grad_def
        set_grad_def set_data_def Let_def) auto
  have inner: "\<exists>s1::state. grad s1 0 = 1 + 1 \<and> data s3 0 = data s1 0 - 0.1 * grad s1 0"
    by (rule exI[of _ s1]) (use g1 s1(2) in simp)
  have "\<exists>bl s3. train_batch ?env ?batch ?s = Inr (bl, s3)
         \<and> bl = 4 \<and> data s3 0 = 2 - 0.1 * (1 + 1)
         \<and> (\<exists>s1::state. grad s1 0 = 1 + 1 \<and> data s3 0 = data s1 0 - 0.1 * grad s1 0)"
    using run bl d3 inner by auto
  then show ?thesis using p lossnp by simp
qed

section \<open>Model construction\<close>

lemma alloc_simps [simp]:
  "fst (alloc s) = next_id s"
  "next_id (snd (alloc s)) = Suc (next_id s)"
  "rng (snd (alloc s)) = rng s"
  "data (snd (alloc s)) n = (if n = next_id s then 0 else data s n)"
  "grad (snd (alloc s)) n = (if n = next_id s then 0 else grad s n)"
  "visited (snd (alloc s)) n = (if n = next_id s then False else visited s n)"
  by (simp_all add: alloc_def)

lemma random_random_simps [simp]:
  "fst (random_random s) = rng s 0"
  "rng (snd (random_random s)) = (\<lambda>k. rng s (Suc k))"
  "data (snd (random_random s)) = data s"
  "grad (snd (random_random s)) = grad s"
  "visited (snd (random_random s)) = visited s"
  "next_id (snd (random_random s)) = next_id s"
  by (simp_all add: random_random_def)

lemma Value_new_eq: "Value_new s = (Value (next_id s), snd (alloc s))"
  by (simp add: Value_new_def alloc_def)

lemma init_weights_spec:
  "init_weights k w s = (w', s') \<Longrightarrow>
     w' = w @ map (\<lambda>j. Value (next_id s + j)) [0..<k]
   \<and> next_id s' = next_id s + k
   \<and> rng s' = (\<lambda>n. rng s (n + k))
   \<and> (\<forall>j<k. data s' (next_id s + j) = rng s j)
   \<and> (\<forall>n. n < next_id s \<longrightarrow> data s' n = data s n)"
proof (induction k arbitrary: w s)
  case 0
  then show ?case by simp
next
  case (Suc k)
  let ?s1 = "set_data (next_id s) (rng s 0) (snd (random_random (snd (alloc s))))"
  have step: "init_weights k (w @ [Value (next_id s)]) ?s1 = (w', s')"
    using Suc.prems by (simp add: Value_new_eq random_random_def Let_def)
  have n1: "next_id ?s1 = Suc (next_id s)" by (simp add: random_random_def)
  have r1: "rng ?s1 = (\<lambda>n. rng s (Suc n))" by (simp add: random_random_def)
  have d1: "data ?s1 n = (if n = next_id s then rng s 0 else data s n)" for n
    by (simp add: random_random_def)
  note IH = Suc.IH[OF step, unfolded n1 r1]
  have w': "w' = w @ map (\<lambda>j. Value (next_id s + j)) [0..<Suc k]"
  proof -
    have "map (\<lambda>j. Value (next_id s + j)) [0..<Suc k]
        = Value (next_id s) # map (\<lambda>j. Value (Suc (next_id s) + j)) [0..<k]"
      by (simp add: upt_rec[of 0 "Suc k"] map_Suc_upt[symmetric] del: upt_Suc)
    then show ?thesis using IH by simp
  qed
  have dat: "\<forall>j<Suc k. data s' (next_id s + j) = rng s j"
  proof (intro allI impI)
    fix j assume j: "j < Suc k"
    show "data s' (next_id s + j) = rng s j"
    proof (cases j)
      case 0
      have "data s' (next_id s) = data ?s1 (next_id s)" using IH by simp
      then show ?thesis using 0 by (simp add: d1)
    next
      case (Suc j')
      then have "data s' (Suc (next_id s) + j') = rng s (Suc j')" using IH j by simp
      then show ?thesis using Suc by simp
    qed
  qed
  have old: "\<forall>n. n < next_id s \<longrightarrow> data s' n = data s n"
    using IH by simp
  show ?case using w' dat old IH by simp
qed

text \<open>
  Claim C6, as amended. \<open>Neuron(nin, nonlin)\<close> creates \<open>nin\<close> weight leaves (none for a
  negative \<open>nin\<close>) and then one bias leaf, all new objects. The data of the \<open>j\<close>-th weight
  is the \<open>j\<close>-th next value of the generator \<open>random\<close> of the module; the data of the
  bias is 0.0, as \<open>Value()\<close> sets it; the generator has advanced by \<open>nin\<close> values, one per
  weight; the parameters are the weights followed by the bias.
\<close>

theorem Neuron_init:
  assumes "Neuron nin nonlin s = (n, s')"
  shows "neuron_w n = map (\<lambda>j. Value (next_id s + j)) [0..<nat nin]
     \<and> (\<forall>j<nat nin. data s' (next_id s + j) = rng s j)
     \<and> neuron_b n = Value (next_id s + nat nin)
     \<and> data s' (next_id s + nat nin) = 0
     \<and> rng s' = (\<lambda>k. rng s (k + nat nin))
     \<and> neuron_parameters n = neuron_w n @ [neuron_b n]
     \<and> length (neuron_parameters n) = nat nin + 1
     \<and> neuron_nonlin n = nonlin"
proof -
  obtain w s1 where w: "init_weights (nat nin) [] s = (w, s1)" by (cases "init_weights (nat nin) [] s")
  note spec = init_weights_spec[OF w]
  have n: "n = \<lparr>neuron_w = w, neuron_b = Value (next_id s1), neuron_nonlin = nonlin,
                neuron_parameters = w @ [Value (next_id s1)]\<rparr>"
    and s': "s' = snd (alloc s1)"
    using assms w by (simp_all add: Neuron_def Value_new_eq)
  have a: "neuron_w n = map (\<lambda>j. Value (next_id s + j)) [0..<nat nin]" using spec n by simp
  have b: "\<forall>j<nat nin. data s' (next_id s + j) = rng s j" using spec s' by simp
  have c: "neuron_b n = Value (next_id s + nat nin)" using spec n by simp
  have d: "data s' (next_id s + nat nin) = 0" using spec s' by simp
  have e: "rng s' = (\<lambda>k. rng s (k + nat nin))" using spec s' by simp
  have f: "neuron_parameters n = neuron_w n @ [neuron_b n]" using n by simp
  have g: "length (neuron_parameters n) = nat nin + 1" using f a by simp
  have h: "neuron_nonlin n = nonlin" using n by simp
  show ?thesis using a b c d e f g h by (intro conjI)
qed

theorem Neuron_init_witness:
  "neuron_w (fst (Neuron 2 True (empty_state\<lparr>rng := (\<lambda>k. 1 / (real k + 2))\<rparr>))) = [Value 0, Value 1]
   \<and> neuron_b (fst (Neuron 2 True (empty_state\<lparr>rng := (\<lambda>k. 1 / (real k + 2))\<rparr>))) = Value 2
   \<and> data (snd (Neuron 2 True (empty_state\<lparr>rng := (\<lambda>k. 1 / (real k + 2))\<rparr>))) 0 = 1 / 2
   \<and> data (snd (Neuron 2 True (empty_state\<lparr>rng := (\<lambda>k. 1 / (real k + 2))\<rparr>))) 1 = 1 / 3
   \<and> data (snd (Neuron 2 True (empty_state\<lparr>rng := (\<lambda>k. 1 / (real k + 2))\<rparr>))) 2 = 0
   \<and> rng (snd (Neuron 2 True (empty_state\<lparr>rng := (\<lambda>k. 1 / (real k + 2))\<rparr>))) 0 = 1 / 4"
proof -
  let ?s = "empty_state\<lparr>rng := (\<lambda>k. 1 / (real k + 2))\<rparr>"
  have n0: "next_id ?s = 0" by (simp add: empty_state_def)
  have up: "[0..<nat 2] = [0, 1]" by (simp add: upt_rec)
  note t = Neuron_init[of 2 True ?s "fst (Neuron 2 True ?s)" "snd (Neuron 2 True ?s)", simplified n0 up]
  have w: "neuron_w (fst (Neuron 2 True ?s)) = [Value 0, Value 1]" using t by simp
  have b: "neuron_b (fst (Neuron 2 True ?s)) = Value 2" using t by (simp add: numeral_2_eq_2)
  have d: "\<forall>j<nat 2. data (snd (Neuron 2 True ?s)) (0 + j) = rng ?s j" using t by simp
  have d0: "data (snd (Neuron 2 True ?s)) 0 = 1 / 2" using d[rule_format, of 0] by simp
  have d1: "data (snd (Neuron 2 True ?s)) 1 = 1 / 3" using d[rule_format, of 1] by simp
  have d2: "data (snd (Neuron 2 True ?s)) 2 = 0" using t by (simp add: numeral_2_eq_2)
  have r: "rng (snd (Neuron 2 True ?s)) 0 = 1 / 4" using t by simp
  show ?thesis using w b d0 d1 d2 r by (intro conjI)
qed

text \<open>
  Claim C6 as stated fails for the bias: with a generator that never returns 0, the data of
  the bias of a new neuron with one weight is 0, and the construction has taken one value
  from the generator, the weight's: the next value is the second of the stream.
\<close>

theorem Neuron_bias_not_drawn:
  "neuron_b (fst (Neuron 1 True (empty_state\<lparr>rng := (\<lambda>k. 1 / (real k + 2))\<rparr>))) = Value 1
   \<and> data (snd (Neuron 1 True (empty_state\<lparr>rng := (\<lambda>k. 1 / (real k + 2))\<rparr>))) 1 = 0
   \<and> (\<forall>k. rng (empty_state\<lparr>rng := (\<lambda>k. 1 / (real k + 2))\<rparr>) k \<noteq> 0)
   \<and> rng (snd (Neuron 1 True (empty_state\<lparr>rng := (\<lambda>k. 1 / (real k + 2))\<rparr>))) 0
        = rng (empty_state\<lparr>rng := (\<lambda>k. 1 / (real k + 2))\<rparr>) 1"
proof -
  have "real k + 2 \<noteq> 0" for k by linarith
  then show ?thesis
    by (simp add: Neuron_def Value_new_def alloc_def random_random_def empty_state_def
        set_data_def Let_def)
qed

section \<open>The forward pass and the loss\<close>

lemma get_data_set_data:
  "get_data x (set_data i v s) = (if \<not> is_Const x \<and> ident x = i then v else get_data x s)"
  by (cases x) auto

lemma val_cong: "(\<And>i. data s i = data s' i) \<Longrightarrow> val n s = val n s'"
  by (induction n s rule: val.induct) auto

text \<open>One forward rule, on operands whose data already are their values.\<close>

lemma node_forward_val:
  assumes ops: "\<forall>a\<in>set (prev c). get_data a s = val a s0"
    and leaf: "prev c = [] \<longrightarrow> get_data c s = val c s0"
  shows "node_forward c s = (if raises c s0 then node_forward c s
                             else Inr (if prev c = [] then s else set_data (ident c) (val c s0) s))
       \<and> (raises c s0 \<longrightarrow> isl (node_forward c s))"
  using assms
  by (induction c s rule: node_forward.induct)
     (auto simp: Let_def split: sum.splits)

lemma get_data_Const: "is_Const a \<Longrightarrow> get_data a s = val a s0"
  by (cases a) auto

lemma run_forward_val:
  assumes "topo_sorted S t" and "distinct (map ident t)"
    and "unique_ids U" and "set t \<subseteq> U" and "S \<subseteq> U" and "\<forall>x\<in>U. set (prev x) \<subseteq> U"
    and "\<forall>x\<in>set t. \<not> is_Const x"
    and "ident ` S \<inter> ident ` set t = {}"
    and "\<forall>x\<in>S. get_data x s = val x s0"
    and "\<forall>x\<in>U. prev x = [] \<longrightarrow> get_data x s = val x s0"
  shows "(\<forall>s'. run_forward t s = Inr s' \<longrightarrow>
            (\<forall>x\<in>S \<union> set t. get_data x s' = val x s0)
          \<and> (\<forall>x\<in>U. prev x = [] \<longrightarrow> get_data x s' = val x s0)
          \<and> (\<forall>i. i \<notin> ident ` {x \<in> set t. prev x \<noteq> []} \<longrightarrow> data s' i = data s i))
       \<and> ((\<forall>x\<in>set t. \<not> raises x s0) \<longrightarrow> (\<exists>s'. run_forward t s = Inr s'))
       \<and> ((\<exists>x\<in>set t. raises x s0) \<longrightarrow> isl (run_forward t s))"
  using assms
proof (induction t arbitrary: S s)
  case Nil
  then show ?case by simp
next
  case (Cons c cs)
  note sorted = Cons.prems(1) and dist = Cons.prems(2) and uniq = Cons.prems(3)
    and tU = Cons.prems(4) and SU = Cons.prems(5) and closed = Cons.prems(6)
    and nc = Cons.prems(7) and disj = Cons.prems(8) and seen = Cons.prems(9)
    and leaves = Cons.prems(10)
  have cU: "c \<in> U" using tU by simp
  have ops: "\<forall>a\<in>set (prev c). get_data a s = val a s0"
  proof
    fix a assume a: "a \<in> set (prev c)"
    show "get_data a s = val a s0"
    proof (cases "is_Const a")
      case True
      then show ?thesis by (rule get_data_Const)
    next
      case False
      then have "a \<in> S" using sorted a by simp
      then show ?thesis using seen by simp
    qed
  qed
  have leaf: "prev c = [] \<longrightarrow> get_data c s = val c s0" using leaves cU by simp
  note nf = node_forward_val[OF ops leaf]
  show ?case
  proof (cases "raises c s0")
    case True
    then have "isl (node_forward c s)" using nf by simp
    then have "isl (run_forward (c # cs) s)" by (auto split: sum.splits)
    then show ?thesis using True by (auto simp: isl_def)
  next
    case False
    let ?s1 = "if prev c = [] then s else set_data (ident c) (val c s0) s"
    have step: "node_forward c s = Inr ?s1" using nf False by simp
    have run: "run_forward (c # cs) s = run_forward cs ?s1" using step by simp
    have cS: "ident c \<notin> ident ` S" using disj by auto
    have c_cs: "ident c \<notin> ident ` set cs" using dist by auto
    have ncc: "\<not> is_Const c" using nc by simp
    have p1: "topo_sorted (insert c S) cs" using sorted by simp
    have p2: "distinct (map ident cs)" using dist by simp
    have p4: "set cs \<subseteq> U" using tU by simp
    have p5: "insert c S \<subseteq> U" using SU cU by simp
    have p7: "\<forall>x\<in>set cs. \<not> is_Const x" using nc by simp
    have p8: "ident ` insert c S \<inter> ident ` set cs = {}" using disj c_cs by auto
    have p9: "\<forall>x\<in>insert c S. get_data x ?s1 = val x s0"
    proof
      fix x assume x: "x \<in> insert c S"
      show "get_data x ?s1 = val x s0"
      proof (cases "x = c")
        case True
        then show ?thesis using leaf ncc by (simp add: get_data_set_data)
      next
        case False
        then have xS: "x \<in> S" using x by simp
        then have "ident x \<in> ident ` S" by (rule imageI)
        then have "ident x \<noteq> ident c" using cS by metis
        then show ?thesis using seen xS by (simp add: get_data_set_data)
      qed
    qed
    have p10: "\<forall>x\<in>U. prev x = [] \<longrightarrow> get_data x ?s1 = val x s0"
    proof (intro ballI impI)
      fix x assume x: "x \<in> U" and xl: "prev x = []"
      show "get_data x ?s1 = val x s0"
      proof (cases "prev c = []")
        case True
        then show ?thesis using leaves x xl by simp
      next
        case False
        then have "x \<noteq> c" using xl by auto
        then have "ident x \<noteq> ident c" using uniq x cU by (auto simp: unique_ids_def)
        then show ?thesis using leaves x xl False by (simp add: get_data_set_data)
      qed
    qed
    note IH = Cons.IH[OF p1 p2 uniq p4 p5 closed p7 p8 p9 p10]
    have d1: "data ?s1 i = data s i" if "i \<noteq> ident c \<or> prev c = []" for i
      using that by auto
    have a: "\<forall>s'. run_forward (c # cs) s = Inr s' \<longrightarrow>
            (\<forall>x\<in>S \<union> set (c # cs). get_data x s' = val x s0)
          \<and> (\<forall>x\<in>U. prev x = [] \<longrightarrow> get_data x s' = val x s0)
          \<and> (\<forall>i. i \<notin> ident ` {x \<in> set (c # cs). prev x \<noteq> []} \<longrightarrow> data s' i = data s i)"
    proof (intro allI impI)
      fix s' assume r: "run_forward (c # cs) s = Inr s'"
      then have r': "run_forward cs ?s1 = Inr s'" using run by simp
      have i1: "\<forall>x\<in>insert c S \<union> set cs. get_data x s' = val x s0"
        and i2: "\<forall>x\<in>U. prev x = [] \<longrightarrow> get_data x s' = val x s0"
        and i3: "\<forall>i. i \<notin> ident ` {x \<in> set cs. prev x \<noteq> []} \<longrightarrow> data s' i = data ?s1 i"
        using IH r' by blast+
      have i3': "\<forall>i. i \<notin> ident ` {x \<in> set (c # cs). prev x \<noteq> []} \<longrightarrow> data s' i = data s i"
      proof (intro allI impI)
        fix i assume i: "i \<notin> ident ` {x \<in> set (c # cs). prev x \<noteq> []}"
        then have "i \<notin> ident ` {x \<in> set cs. prev x \<noteq> []}" by auto
        then have "data s' i = data ?s1 i" using i3 by blast
        moreover have "i \<noteq> ident c \<or> prev c = []" using i by auto
        ultimately show "data s' i = data s i" using d1 by simp
      qed
      show "(\<forall>x\<in>S \<union> set (c # cs). get_data x s' = val x s0)
          \<and> (\<forall>x\<in>U. prev x = [] \<longrightarrow> get_data x s' = val x s0)
          \<and> (\<forall>i. i \<notin> ident ` {x \<in> set (c # cs). prev x \<noteq> []} \<longrightarrow> data s' i = data s i)"
        using i1 i2 i3' by auto
    qed
    have b: "(\<forall>x\<in>set (c # cs). \<not> raises x s0) \<longrightarrow> (\<exists>s'. run_forward (c # cs) s = Inr s')"
      using IH run by auto
    have c: "(\<exists>x\<in>set (c # cs). raises x s0) \<longrightarrow> isl (run_forward (c # cs) s)"
      using IH run False by auto
    show ?thesis using a b c by blast
  qed
qed

lemma growsD:
  assumes "grows s U s' U'"
  shows "U \<subseteq> U'" "graph_ok s' U'" "next_id s \<le> next_id s'" "\<And>x \<sigma>. x \<in> U' \<Longrightarrow> x \<notin> U \<Longrightarrow> \<not> raises x \<sigma>"
  using assms by (auto simp: grows_def)

lemma leaf_val: "prev x = [] \<Longrightarrow> get_data x s = val x s"
  by (cases x) auto

lemma raises_Const: "is_Const x \<Longrightarrow> \<not> raises x s"
  by (cases x) auto

lemma forward_sweep:
  assumes uniq: "unique_ids (subnodes r)" and fresh: "\<forall>x\<in>subnodes r. \<not> visited s (ident x)"
  shows "(\<forall>\<sigma>'. run_forward (fst (topo r s)) \<sigma> = Inr \<sigma>' \<longrightarrow>
            (\<forall>x\<in>subnodes r. get_data x \<sigma>' = val x \<sigma>)
          \<and> (\<forall>i. i \<notin> ident ` {x \<in> subnodes r. prev x \<noteq> []} \<longrightarrow> data \<sigma>' i = data \<sigma> i))
       \<and> ((\<forall>x\<in>subnodes r. \<not> raises x \<sigma>) \<longrightarrow> (\<exists>\<sigma>'. run_forward (fst (topo r s)) \<sigma> = Inr \<sigma>'))
       \<and> ((\<exists>x\<in>subnodes r. raises x \<sigma>) \<longrightarrow> isl (run_forward (fst (topo r s)) \<sigma>))"
proof -
  let ?t = "fst (topo r s)"
  have st: "set ?t = {x \<in> subnodes r. \<not> is_Const x}" by (rule topo_order_facts(3)[OF uniq fresh])
  have closed: "\<forall>x\<in>subnodes r. set (prev x) \<subseteq> subnodes r"
    using prev_subnodes subnodes_trans by blast
  have main: "(\<forall>s'. run_forward ?t \<sigma> = Inr s' \<longrightarrow>
            (\<forall>x\<in>{} \<union> set ?t. get_data x s' = val x \<sigma>)
          \<and> (\<forall>x\<in>subnodes r. prev x = [] \<longrightarrow> get_data x s' = val x \<sigma>)
          \<and> (\<forall>i. i \<notin> ident ` {x \<in> set ?t. prev x \<noteq> []} \<longrightarrow> data s' i = data \<sigma> i))
       \<and> ((\<forall>x\<in>set ?t. \<not> raises x \<sigma>) \<longrightarrow> (\<exists>s'. run_forward ?t \<sigma> = Inr s'))
       \<and> ((\<exists>x\<in>set ?t. raises x \<sigma>) \<longrightarrow> isl (run_forward ?t \<sigma>))"
  proof (rule run_forward_val[OF topo_order_facts(1)[OF uniq fresh] topo_order_facts(2)[OF uniq fresh]
        uniq _ _ closed])
    show "set ?t \<subseteq> subnodes r" using st by auto
    show "{} \<subseteq> subnodes r" by simp
    show "\<forall>x\<in>set ?t. \<not> is_Const x" using st by auto
    show "ident ` {} \<inter> ident ` set ?t = {}" by simp
    show "\<forall>x\<in>{}. get_data x \<sigma> = val x \<sigma>" by simp
    show "\<forall>x\<in>subnodes r. prev x = [] \<longrightarrow> get_data x \<sigma> = val x \<sigma>" using leaf_val by blast
  qed
  have derived: "{x \<in> set ?t. prev x \<noteq> []} = {x \<in> subnodes r. prev x \<noteq> []}"
  proof -
    have "\<not> is_Const x" if "prev x \<noteq> []" for x using that by (cases x) auto
    then show ?thesis using st by auto
  qed
  have a: "\<forall>\<sigma>'. run_forward ?t \<sigma> = Inr \<sigma>' \<longrightarrow>
            (\<forall>x\<in>subnodes r. get_data x \<sigma>' = val x \<sigma>)
          \<and> (\<forall>i. i \<notin> ident ` {x \<in> subnodes r. prev x \<noteq> []} \<longrightarrow> data \<sigma>' i = data \<sigma> i)"
  proof (intro allI impI conjI ballI)
    fix \<sigma>' x assume r: "run_forward ?t \<sigma> = Inr \<sigma>'" and x: "x \<in> subnodes r"
    show "get_data x \<sigma>' = val x \<sigma>"
    proof (cases "is_Const x")
      case True
      then show ?thesis by (rule get_data_Const)
    next
      case False
      then have "x \<in> set ?t" using st x by simp
      then show ?thesis using main r by blast
    qed
  next
    fix \<sigma>' i assume r: "run_forward ?t \<sigma> = Inr \<sigma>'"
      and i: "i \<notin> ident ` {x \<in> subnodes r. prev x \<noteq> []}"
    show "data \<sigma>' i = data \<sigma> i" using main r i unfolding derived by blast
  qed
  have ex: "(\<exists>x\<in>set ?t. raises x \<sigma>) \<longleftrightarrow> (\<exists>x\<in>subnodes r. raises x \<sigma>)"
    using st raises_Const by auto
  have b: "(\<forall>x\<in>subnodes r. \<not> raises x \<sigma>) \<longrightarrow> (\<exists>\<sigma>'. run_forward ?t \<sigma> = Inr \<sigma>')"
    using main ex by blast
  have c: "(\<exists>x\<in>subnodes r. raises x \<sigma>) \<longrightarrow> isl (run_forward ?t \<sigma>)"
    using main ex by blast
  show ?thesis using a b c by (intro conjI)
qed

lemma subnodes_prev: "subnodes n = insert n (\<Union>a\<in>set (prev n). subnodes a)"
  by (cases n) auto

lemma graph_ok_alloc:
  assumes ok: "graph_ok s U" and ops: "set (prev n) \<subseteq> U" and id: "ident n = next_id s"
  shows "graph_ok (snd (alloc s)) (insert n U)"
proof -
  have lt: "\<forall>x\<in>U. ident x < next_id s" and nv: "\<forall>x\<in>U. \<not> visited s (ident x)"
    and closed: "\<forall>x\<in>U. subnodes x \<subseteq> U" and uniq: "unique_ids U"
    using ok by (auto simp: graph_ok_def)
  have new: "\<forall>x\<in>U. ident x \<noteq> ident n" using lt id by auto
  have u: "unique_ids (insert n U)"
    using uniq new unfolding unique_ids_def by (metis insert_iff)
  have "(\<Union>a\<in>set (prev n). subnodes a) \<subseteq> U" using ops closed by blast
  then have sn: "subnodes n \<subseteq> insert n U" using subnodes_prev[of n] by auto
  have c: "\<forall>x\<in>insert n U. subnodes x \<subseteq> insert n U" using sn closed by auto
  have b: "\<forall>x\<in>insert n U. ident x < next_id (snd (alloc s)) \<and> \<not> visited (snd (alloc s)) (ident x)"
    using lt nv id by auto
  show ?thesis unfolding graph_ok_def using u c b by blast
qed

lemma grows_alloc:
  assumes ok: "graph_ok s U" and ops: "set (prev n) \<subseteq> U" and id: "ident n = next_id s"
    and nr: "\<forall>\<sigma>. \<not> raises n \<sigma>"
  shows "grows s U (snd (alloc s)) (insert n U)"
  using graph_ok_alloc[OF ok ops id] nr by (auto simp: grows_def)

lemma grows_trans:
  assumes "grows s U s1 U1" "grows s1 U1 s2 U2"
  shows "grows s U s2 U2"
proof -
  have "U2 - U \<subseteq> (U2 - U1) \<union> (U1 - U)" by auto
  then have "\<forall>x\<in>U2 - U. \<forall>\<sigma>. \<not> raises x \<sigma>" using assms unfolding grows_def by blast
  then show ?thesis using assms by (auto simp: grows_def)
qed

lemma grows_refl: "graph_ok s U \<Longrightarrow> grows s U s U"
  by (simp add: grows_def)

lemma node_new_eqs:
  "Value_new s = (Value (next_id s), snd (alloc s))"
  "Const_new d s = (Const (next_id s) d, snd (alloc s))"
  "Max_new a b s = (BinaryValue (next_id s) MaxValue a b, snd (alloc s))"
  "add_node a b s = (BinaryValue (next_id s) AddValue a b, snd (alloc s))"
  "mul_node a b s = (BinaryValue (next_id s) MulValue a b, snd (alloc s))"
  "pow_node a k s = (UnaryValue (next_id s) (PowValue k) a, snd (alloc s))"
  "relu_node a s = (UnaryValue (next_id s) ReluValue a, snd (alloc s))"
  "log_node a s = (UnaryValue (next_id s) LogValue a, snd (alloc s))"
  "exp_node a s = (UnaryValue (next_id s) ExpValue a, snd (alloc s))"
  by (simp_all add: Value_new_def Const_new_def Max_new_def add_node_def mul_node_def pow_node_def
      relu_node_def log_node_def exp_node_def alloc_def)

lemma Const_new_grows:
  assumes "graph_ok s U"
  shows "grows s U (snd (Const_new d s)) (insert (fst (Const_new d s)) U)"
  unfolding node_new_eqs fst_conv snd_conv by (rule grows_alloc[OF assms]) auto

lemma add_node_grows:
  assumes "graph_ok s U" "a \<in> U" "b \<in> U"
  shows "grows s U (snd (add_node a b s)) (insert (fst (add_node a b s)) U)"
  unfolding node_new_eqs fst_conv snd_conv by (rule grows_alloc[OF assms(1)]) (use assms in auto)

lemma mul_node_grows:
  assumes "graph_ok s U" "a \<in> U" "b \<in> U"
  shows "grows s U (snd (mul_node a b s)) (insert (fst (mul_node a b s)) U)"
  unfolding node_new_eqs fst_conv snd_conv by (rule grows_alloc[OF assms(1)]) (use assms in auto)

lemma Max_new_grows:
  assumes "graph_ok s U" "a \<in> U" "b \<in> U"
  shows "grows s U (snd (Max_new a b s)) (insert (fst (Max_new a b s)) U)"
  unfolding node_new_eqs fst_conv snd_conv by (rule grows_alloc[OF assms(1)]) (use assms in auto)

lemma exp_node_grows:
  assumes "graph_ok s U" "a \<in> U"
  shows "grows s U (snd (exp_node a s)) (insert (fst (exp_node a s)) U)"
  unfolding node_new_eqs fst_conv snd_conv by (rule grows_alloc[OF assms(1)]) (use assms in auto)

lemma log_node_grows:
  assumes "graph_ok s U" "a \<in> U" "\<forall>\<sigma>. 0 < val a \<sigma>"
  shows "grows s U (snd (log_node a s)) (insert (fst (log_node a s)) U)"
proof -
  have nr: "\<forall>\<sigma>. \<not> raises (UnaryValue (next_id s) LogValue a) \<sigma>"
  proof
    fix \<sigma>
    have "0 < val a \<sigma>" using assms(3) by blast
    then show "\<not> raises (UnaryValue (next_id s) LogValue a) \<sigma>" by (simp add: math_log_def)
  qed
  show ?thesis
    unfolding node_new_eqs fst_conv snd_conv
    by (rule grows_alloc[OF assms(1) _ _ nr]) (use assms in auto)
qed

lemma pow_minus_one_grows:
  assumes "graph_ok s U" "a \<in> U" "\<forall>\<sigma>. val a \<sigma> \<noteq> 0"
  shows "grows s U (snd (pow_node a (- 1) s)) (insert (fst (pow_node a (- 1) s)) U)"
proof -
  have nr: "\<forall>\<sigma>. \<not> raises (UnaryValue (next_id s) (PowValue (- 1)) a) \<sigma>"
  proof
    fix \<sigma>
    have "val a \<sigma> \<noteq> 0" using assms(3) by blast
    then show "\<not> raises (UnaryValue (next_id s) (PowValue (- 1)) a) \<sigma>" by (simp add: math_pow_def)
  qed
  show ?thesis
    unfolding node_new_eqs fst_conv snd_conv
    by (rule grows_alloc[OF assms(1) _ _ nr]) (use assms in auto)
qed

lemma sub_node_val: "val (fst (sub_node a b s)) \<sigma> = val a \<sigma> - val b \<sigma>"
  by (simp add: sub_node_def node_new_eqs Let_def)

lemma floor_minus_one: "\<lfloor>- 1 :: real\<rfloor> = - 1"
  using floor_of_int[of "- 1", where ?'a = real] by simp

lemma math_pow_minus_one: "x \<noteq> 0 \<Longrightarrow> math_pow x (- 1) = Inr (1 / x)"
proof -
  assume x: "x \<noteq> 0"
  have "x powi (- 1) = 1 / x" by (simp add: power_int_minus inverse_eq_divide)
  then show ?thesis using x by (simp add: math_pow_def floor_minus_one)
qed

lemma div_node_val: "val b \<sigma> \<noteq> 0 \<Longrightarrow> val (fst (div_node a b s)) \<sigma> = val a \<sigma> / val b \<sigma>"
  by (simp add: div_node_def node_new_eqs Let_def math_pow_minus_one)

lemma sub_node_grows:
  assumes ok: "graph_ok s U" and a: "a \<in> U" and b: "b \<in> U"
  shows "\<exists>U'. grows s U (snd (sub_node a b s)) U' \<and> fst (sub_node a b s) \<in> U'"
proof -
  obtain c s1 where c: "Const_new (- 1) s = (c, s1)" by (cases "Const_new (- 1) s")
  obtain m s2 where m: "mul_node b c s1 = (m, s2)" by (cases "mul_node b c s1")
  obtain r s3 where r: "add_node a m s2 = (r, s3)" by (cases "add_node a m s2")
  have g1: "grows s U s1 (insert c U)" using Const_new_grows[OF ok, of "- 1"] c by simp
  have g2: "grows s1 (insert c U) s2 (insert m (insert c U))"
    using mul_node_grows[of s1 "insert c U" b c] growsD(2)[OF g1] b m by simp
  have g3: "grows s2 (insert m (insert c U)) s3 (insert r (insert m (insert c U)))"
    using add_node_grows[of s2 "insert m (insert c U)" a m] growsD(2)[OF g2] a r by simp
  have "grows s U s3 (insert r (insert m (insert c U)))"
    by (rule grows_trans[OF grows_trans[OF g1 g2] g3])
  moreover have "sub_node a b s = (r, s3)" using c m r by (simp add: sub_node_def)
  ultimately show ?thesis by (intro exI[of _ "insert r (insert m (insert c U))"]) simp
qed

lemma div_node_grows:
  assumes ok: "graph_ok s U" and a: "a \<in> U" and b: "b \<in> U" and nz: "\<forall>\<sigma>. val b \<sigma> \<noteq> 0"
  shows "\<exists>U'. grows s U (snd (div_node a b s)) U' \<and> fst (div_node a b s) \<in> U'"
proof -
  obtain p s1 where p: "pow_node b (- 1) s = (p, s1)" by (cases "pow_node b (- 1) s")
  obtain r s2 where r: "mul_node a p s1 = (r, s2)" by (cases "mul_node a p s1")
  have g1: "grows s U s1 (insert p U)" using pow_minus_one_grows[OF ok b nz] p by simp
  have g2: "grows s1 (insert p U) s2 (insert r (insert p U))"
    using mul_node_grows[of s1 "insert p U" a p] growsD(2)[OF g1] a r by simp
  have "grows s U s2 (insert r (insert p U))" by (rule grows_trans[OF g1 g2])
  moreover have "div_node a b s = (r, s2)" using p r by (simp add: div_node_def)
  ultimately show ?thesis by (intro exI[of _ "insert r (insert p U)"]) simp
qed

lemma map_new_length: "length (fst (map_new f xs s)) = length xs"
proof (induction xs arbitrary: s)
  case Nil
  then show ?case by simp
next
  case (Cons x xs)
  obtain y s1 where y: "f x s = (y, s1)" by (cases "f x s")
  show ?case using Cons.IH[of s1] y by (simp add: Let_def split_beta)
qed

lemma map_new_val:
  assumes "\<And>x s. val (fst (f x s)) \<sigma> = g x"
  shows "map (\<lambda>y. val y \<sigma>) (fst (map_new f xs s)) = map g xs"
proof (induction xs arbitrary: s)
  case Nil
  then show ?case by simp
next
  case (Cons x xs)
  obtain y s1 where y: "f x s = (y, s1)" by (cases "f x s")
  have "val y \<sigma> = g x" using assms[of x s] y by simp
  then show ?case using Cons.IH[of s1] y by (simp add: Let_def split_beta)
qed

lemma map_new_grows:
  assumes step: "\<And>x s U. graph_ok s U \<Longrightarrow> A \<subseteq> U \<Longrightarrow> x \<in> set xs \<Longrightarrow> x \<in> U
      \<Longrightarrow> \<exists>U'. grows s U (snd (f x s)) U' \<and> fst (f x s) \<in> U'"
    and ok: "graph_ok s U" and A: "A \<subseteq> U" and xs: "set xs \<subseteq> U"
  shows "\<exists>U'. grows s U (snd (map_new f xs s)) U' \<and> set (fst (map_new f xs s)) \<subseteq> U'"
  using step ok A xs
proof (induction xs arbitrary: s U)
  case Nil
  then show ?case by (intro exI[of _ U]) (simp add: grows_refl)
next
  case (Cons x xs)
  obtain y s1 where y: "f x s = (y, s1)" by (cases "f x s")
  obtain ys s2 where ys: "map_new f xs s1 = (ys, s2)" by (cases "map_new f xs s1")
  from Cons.prems(1)[OF Cons.prems(2,3), of x] Cons.prems(4) y
  obtain U1 where U1: "grows s U s1 U1" "y \<in> U1" by auto
  have "\<exists>U'. grows s1 U1 (snd (map_new f xs s1)) U' \<and> set (fst (map_new f xs s1)) \<subseteq> U'"
  proof (rule Cons.IH)
    show "\<exists>U'. grows s U (snd (f x s)) U' \<and> fst (f x s) \<in> U'"
      if "graph_ok s U" "A \<subseteq> U" "x \<in> set xs" "x \<in> U" for x s U
      using Cons.prems(1)[OF that(1,2) _ that(4)] that(3) by simp
    show "graph_ok s1 U1" using growsD(2)[OF U1(1)] .
    show "A \<subseteq> U1" using growsD(1)[OF U1(1)] Cons.prems(3) by auto
    show "set xs \<subseteq> U1" using growsD(1)[OF U1(1)] Cons.prems(4) by auto
  qed
  then obtain U2 where U2: "grows s1 U1 s2 U2" "set ys \<subseteq> U2" using ys by auto
  have g: "grows s U s2 U2" by (rule grows_trans[OF U1(1) U2(1)])
  have "y \<in> U2" using U1(2) growsD(1)[OF U2(1)] by auto
  moreover have "map_new f (x # xs) s = (y # ys, s2)" using y ys by simp
  ultimately show ?case using g U2(2) by (intro exI[of _ U2]) simp
qed

lemma max_loop_val:
  "val (fst (max_loop m xs s)) \<sigma> = foldl max (val m \<sigma>) (map (\<lambda>x. val x \<sigma>) xs)"
proof (induction xs arbitrary: m s)
  case Nil
  then show ?case by simp
next
  case (Cons x xs)
  have "val (BinaryValue (next_id s) MaxValue m x) \<sigma> = max (val m \<sigma>) (val x \<sigma>)"
    by (simp add: max_def)
  then show ?case using Cons.IH by (simp add: node_new_eqs)
qed

lemma sum_loop_val:
  "val (fst (sum_loop m xs s)) \<sigma> = val m \<sigma> + (\<Sum>x\<leftarrow>xs. val x \<sigma>)"
proof (induction xs arbitrary: m s)
  case Nil
  then show ?case by simp
next
  case (Cons x xs)
  then show ?case by (simp add: node_new_eqs)
qed

lemma max_loop_grows:
  assumes "graph_ok s U" "m \<in> U" "set xs \<subseteq> U"
  shows "\<exists>U'. grows s U (snd (max_loop m xs s)) U' \<and> fst (max_loop m xs s) \<in> U'"
  using assms
proof (induction xs arbitrary: m s U)
  case Nil
  then show ?case by (intro exI[of _ U]) (simp add: grows_refl)
next
  case (Cons x xs)
  obtain n s1 where n: "Max_new m x s = (n, s1)" by (cases "Max_new m x s")
  have g1: "grows s U s1 (insert n U)"
    using Max_new_grows[OF Cons.prems(1,2), of x] Cons.prems(3) n by simp
  have "\<exists>U'. grows s1 (insert n U) (snd (max_loop n xs s1)) U' \<and> fst (max_loop n xs s1) \<in> U'"
    by (rule Cons.IH) (use growsD(2)[OF g1] Cons.prems(3) in auto)
  then obtain U2 where U2: "grows s1 (insert n U) (snd (max_loop n xs s1)) U2"
    "fst (max_loop n xs s1) \<in> U2" by blast
  have "grows s U (snd (max_loop n xs s1)) U2" by (rule grows_trans[OF g1 U2(1)])
  then show ?case using U2(2) n by (intro exI[of _ U2]) simp
qed

lemma sum_loop_grows:
  assumes "graph_ok s U" "m \<in> U" "set xs \<subseteq> U"
  shows "\<exists>U'. grows s U (snd (sum_loop m xs s)) U' \<and> fst (sum_loop m xs s) \<in> U'"
  using assms
proof (induction xs arbitrary: m s U)
  case Nil
  then show ?case by (intro exI[of _ U]) (simp add: grows_refl)
next
  case (Cons x xs)
  obtain n s1 where n: "add_node m x s = (n, s1)" by (cases "add_node m x s")
  have g1: "grows s U s1 (insert n U)"
    using add_node_grows[OF Cons.prems(1,2), of x] Cons.prems(3) n by simp
  have "\<exists>U'. grows s1 (insert n U) (snd (sum_loop n xs s1)) U' \<and> fst (sum_loop n xs s1) \<in> U'"
    by (rule Cons.IH) (use growsD(2)[OF g1] Cons.prems(3) in auto)
  then obtain U2 where U2: "grows s1 (insert n U) (snd (sum_loop n xs s1)) U2"
    "fst (sum_loop n xs s1) \<in> U2" by blast
  have "grows s U (snd (sum_loop n xs s1)) U2" by (rule grows_trans[OF g1 U2(1)])
  then show ?case using U2(2) n by (intro exI[of _ U2]) simp
qed

lemma sum_list_exp_pos: "xs \<noteq> [] \<Longrightarrow> 0 < (\<Sum>x\<leftarrow>xs. exp (f x :: real))"
proof (induction xs)
  case Nil
  then show ?case by simp
next
  case (Cons x xs)
  have "0 \<le> (\<Sum>x\<leftarrow>xs. exp (f x))" by (rule sum_list_nonneg) auto
  moreover have "0 < exp (f x)" by simp
  ultimately have "0 < exp (f x) + (\<Sum>x\<leftarrow>xs. exp (f x))" by (rule add_pos_nonneg[rotated])
  then show ?case by simp
qed

lemma stable_softmax_steps:
  assumes ne: "outs \<noteq> []"
  shows "\<exists>max_v s1 shiftx s2 exps s3 sum_v s4 res s5.
           max_loop (hd outs) (tl outs) s = (max_v, s1)
         \<and> map_new (\<lambda>x. sub_node x max_v) outs s1 = (shiftx, s2)
         \<and> map_new exp_node shiftx s2 = (exps, s3)
         \<and> exps \<noteq> []
         \<and> sum_loop (hd exps) (tl exps) s3 = (sum_v, s4)
         \<and> map_new (\<lambda>x. div_node x sum_v) exps s4 = (res, s5)
         \<and> stable_softmax outs s = Inr (res, s5)
         \<and> (\<forall>\<sigma>. 0 < val sum_v \<sigma>)
         \<and> (\<forall>\<sigma>. map (\<lambda>y. val y \<sigma>) res = softmax_spec (map (\<lambda>x. val x \<sigma>) outs))"
proof -
  obtain o0 rest where out: "outs = o0 # rest" using ne by (cases "outs") auto
  obtain max_v s1 where mx: "max_loop o0 rest s = (max_v, s1)" by (cases "max_loop o0 rest s")
  obtain shiftx s2 where sh: "map_new (\<lambda>x. sub_node x max_v) outs s1 = (shiftx, s2)"
    by (cases "map_new (\<lambda>x. sub_node x max_v) outs s1")
  obtain exps s3 where ex: "map_new exp_node shiftx s2 = (exps, s3)"
    by (cases "map_new exp_node shiftx s2")
  have "length exps = length outs"
    using map_new_length[of exp_node shiftx s2] map_new_length[of "\<lambda>x. sub_node x max_v" outs s1]
      sh ex by simp
  then obtain e0 erest where exps: "exps = e0 # erest" using ne by (cases exps) auto
  obtain sum_v s4 where sm: "sum_loop e0 erest s3 = (sum_v, s4)" by (cases "sum_loop e0 erest s3")
  obtain res s5 where rs: "map_new (\<lambda>x. div_node x sum_v) exps s4 = (res, s5)"
    by (cases "map_new (\<lambda>x. div_node x sum_v) exps s4")
  have run: "stable_softmax outs s = Inr (res, s5)"
    using mx sh ex sm rs unfolding stable_softmax_def out[symmetric]
    by (simp add: out exps)
  have vals: "0 < val sum_v \<sigma> \<and> map (\<lambda>y. val y \<sigma>) res = softmax_spec (map (\<lambda>x. val x \<sigma>) outs)" for \<sigma>
  proof -
    let ?M = "fold_max (map (\<lambda>x. val x \<sigma>) outs)"
    have m: "val max_v \<sigma> = ?M"
      using max_loop_val[of o0 rest s \<sigma>] mx by (simp add: fold_max_def out)
    have v1: "map (\<lambda>y. val y \<sigma>) shiftx = map (\<lambda>x. val x \<sigma> - ?M) outs"
      using map_new_val[of "\<lambda>x. sub_node x max_v" \<sigma> "\<lambda>x. val x \<sigma> - ?M" outs s1] sh
      by (simp add: sub_node_val m)
    have "map (\<lambda>y. val y \<sigma>) exps = map (\<lambda>x. exp (val x \<sigma>)) shiftx"
      using map_new_val[of exp_node \<sigma> "\<lambda>x. exp (val x \<sigma>)" shiftx s2] ex
      by (simp add: node_new_eqs)
    also have "\<dots> = map exp (map (\<lambda>y. val y \<sigma>) shiftx)" by simp
    also have "\<dots> = map (\<lambda>x. exp (val x \<sigma> - ?M)) outs" unfolding v1 by simp
    finally have v2: "map (\<lambda>y. val y \<sigma>) exps = map (\<lambda>x. exp (val x \<sigma> - ?M)) outs" .
    have "val sum_v \<sigma> = (\<Sum>y\<leftarrow>exps. val y \<sigma>)"
      using sum_loop_val[of e0 erest s3 \<sigma>] sm by (simp add: exps)
    also have "\<dots> = (\<Sum>x\<leftarrow>outs. exp (val x \<sigma> - ?M))" unfolding v2 by simp
    finally have sv: "val sum_v \<sigma> = (\<Sum>x\<leftarrow>outs. exp (val x \<sigma> - ?M))" .
    have pos: "0 < val sum_v \<sigma>" unfolding sv by (rule sum_list_exp_pos[OF ne])
    have "map (\<lambda>y. val y \<sigma>) res = map (\<lambda>x. val x \<sigma> / val sum_v \<sigma>) exps"
      using map_new_val[of "\<lambda>x. div_node x sum_v" \<sigma> "\<lambda>x. val x \<sigma> / val sum_v \<sigma>" exps s4] rs pos
      by (simp add: div_node_val)
    also have "\<dots> = map (\<lambda>v. v / val sum_v \<sigma>) (map (\<lambda>y. val y \<sigma>) exps)" by simp
    also have "\<dots> = map (\<lambda>x. exp (val x \<sigma> - ?M) / val sum_v \<sigma>) outs" unfolding v2 by simp
    finally have "map (\<lambda>y. val y \<sigma>) res = softmax_spec (map (\<lambda>x. val x \<sigma>) outs)"
      unfolding sv softmax_spec_def by (simp add: comp_def)
    then show ?thesis using pos by simp
  qed
  have "max_loop (hd outs) (tl outs) s = (max_v, s1)" using mx out by simp
  moreover have "sum_loop (hd exps) (tl exps) s3 = (sum_v, s4)" "exps \<noteq> []" using sm exps by simp_all
  ultimately show ?thesis using sh ex rs run vals by blast
qed

lemma stable_softmax_val:
  assumes ne: "outs \<noteq> []"
  shows "\<exists>res s'. stable_softmax outs s = Inr (res, s')
           \<and> (\<forall>\<sigma>. map (\<lambda>y. val y \<sigma>) res = softmax_spec (map (\<lambda>x. val x \<sigma>) outs))"
  using stable_softmax_steps[OF ne, of s] by blast

lemma stable_softmax_grows:
  assumes ok: "graph_ok s U" and sub: "set outs \<subseteq> U" and ne: "outs \<noteq> []"
  shows "\<exists>res s' U'. stable_softmax outs s = Inr (res, s') \<and> grows s U s' U' \<and> set res \<subseteq> U'"
proof -
  from stable_softmax_steps[OF ne, of s]
  obtain max_v s1 shiftx s2 exps s3 sum_v s4 res s5 where
    mx: "max_loop (hd outs) (tl outs) s = (max_v, s1)"
    and sh: "map_new (\<lambda>x. sub_node x max_v) outs s1 = (shiftx, s2)"
    and ex: "map_new exp_node shiftx s2 = (exps, s3)"
    and ene: "exps \<noteq> []"
    and sm: "sum_loop (hd exps) (tl exps) s3 = (sum_v, s4)"
    and rs: "map_new (\<lambda>x. div_node x sum_v) exps s4 = (res, s5)"
    and run: "stable_softmax outs s = Inr (res, s5)"
    and pos: "\<forall>\<sigma>. 0 < val sum_v \<sigma>"
    by blast
  have hd_tl: "hd outs \<in> U" "set (tl outs) \<subseteq> U"
    using sub ne by (cases "outs"; auto)+
  obtain U1 where U1: "grows s U s1 U1" "max_v \<in> U1"
    using max_loop_grows[OF ok hd_tl] mx by auto
  have outs1: "set outs \<subseteq> U1" using sub growsD(1)[OF U1(1)] by auto
  have "\<exists>U'. grows s1 U1 (snd (map_new (\<lambda>x. sub_node x max_v) outs s1)) U'
           \<and> set (fst (map_new (\<lambda>x. sub_node x max_v) outs s1)) \<subseteq> U'"
  proof (rule map_new_grows[where A = "{max_v}"])
    show "\<exists>U'. grows s U (snd (sub_node x max_v s)) U' \<and> fst (sub_node x max_v s) \<in> U'"
      if "graph_ok s U" "{max_v} \<subseteq> U" "x \<in> U" for x s U
      using sub_node_grows[OF that(1) that(3), of max_v] that(2) by simp
    show "graph_ok s1 U1" by (rule growsD(2)[OF U1(1)])
    show "{max_v} \<subseteq> U1" using U1(2) by simp
    show "set outs \<subseteq> U1" by (rule outs1)
  qed
  then obtain U2 where U2: "grows s1 U1 s2 U2" "set shiftx \<subseteq> U2" using sh by auto
  have "\<exists>U'. grows s2 U2 (snd (map_new exp_node shiftx s2)) U'
           \<and> set (fst (map_new exp_node shiftx s2)) \<subseteq> U'"
  proof (rule map_new_grows[where A = "{}"])
    show "\<exists>U'. grows s U (snd (exp_node x s)) U' \<and> fst (exp_node x s) \<in> U'"
      if "graph_ok s U" "x \<in> U" for x s U
      using exp_node_grows[OF that] by blast
    show "graph_ok s2 U2" by (rule growsD(2)[OF U2(1)])
    show "{} \<subseteq> U2" by simp
    show "set shiftx \<subseteq> U2" by (rule U2(2))
  qed
  then obtain U3 where U3: "grows s2 U2 s3 U3" "set exps \<subseteq> U3" using ex by auto
  have hd_tl_e: "hd exps \<in> U3" "set (tl exps) \<subseteq> U3"
    using U3(2) ene by (cases exps; auto)+
  obtain U4 where U4: "grows s3 U3 s4 U4" "sum_v \<in> U4"
    using max_loop_grows sum_loop_grows[OF growsD(2)[OF U3(1)] hd_tl_e] sm by auto
  have exps4: "set exps \<subseteq> U4" using U3(2) growsD(1)[OF U4(1)] by auto
  have nz: "\<forall>\<sigma>. val sum_v \<sigma> \<noteq> 0"
  proof
    fix \<sigma> show "val sum_v \<sigma> \<noteq> 0" using pos[rule_format, of \<sigma>] by simp
  qed
  have "\<exists>U'. grows s4 U4 (snd (map_new (\<lambda>x. div_node x sum_v) exps s4)) U'
           \<and> set (fst (map_new (\<lambda>x. div_node x sum_v) exps s4)) \<subseteq> U'"
  proof (rule map_new_grows[where A = "{sum_v}"])
    show "\<exists>U'. grows s U (snd (div_node x sum_v s)) U' \<and> fst (div_node x sum_v s) \<in> U'"
      if "graph_ok s U" "{sum_v} \<subseteq> U" "x \<in> U" for x s U
      using div_node_grows[OF that(1) that(3) _ nz] that(2) by simp
    show "graph_ok s4 U4" by (rule growsD(2)[OF U4(1)])
    show "{sum_v} \<subseteq> U4" using U4(2) by simp
    show "set exps \<subseteq> U4" by (rule exps4)
  qed
  then obtain U5 where U5: "grows s4 U4 s5 U5" "set res \<subseteq> U5" using rs by auto
  have "grows s U s5 U5"
    by (rule grows_trans[OF grows_trans[OF grows_trans[OF grows_trans[OF U1(1) U2(1)] U3(1)] U4(1)] U5(1)])
  then show ?thesis using run U5(2) by blast
qed

lemma sum_list_divide: "(\<Sum>x\<leftarrow>xs. f x / (c::real)) = (\<Sum>x\<leftarrow>xs. f x) / c"
  by (induction xs) (auto simp: add_divide_distrib)

lemma softmax_spec_sum: "xs \<noteq> [] \<Longrightarrow> sum_list (softmax_spec xs) = 1"
proof -
  assume ne: "xs \<noteq> []"
  let ?S = "\<Sum>y\<leftarrow>xs. exp (y - fold_max xs)"
  have pos: "0 < ?S" by (rule sum_list_exp_pos[OF ne])
  have "sum_list (softmax_spec xs) = (\<Sum>x\<leftarrow>xs. exp (x - fold_max xs) / ?S)"
    by (simp add: softmax_spec_def comp_def)
  also have "\<dots> = ?S / ?S" by (rule sum_list_divide)
  also have "\<dots> = 1" using pos by simp
  finally show ?thesis .
qed

lemma foldl_max_shift:
  "foldl max (a + c) (map (\<lambda>x. x + c) ys) = foldl max a ys + (c::real)"
proof (induction ys arbitrary: a)
  case Nil
  then show ?case by simp
next
  case (Cons y ys)
  have "max (a + c) (y + c) = max a y + c" by (simp add: max_def)
  then show ?case using Cons.IH[of "max a y"] by simp
qed

lemma fold_max_shift:
  "xs \<noteq> [] \<Longrightarrow> fold_max (map (\<lambda>x. x + c) xs) = fold_max xs + c"
  by (cases xs) (auto simp: fold_max_def foldl_max_shift)

lemma softmax_spec_shift:
  "xs \<noteq> [] \<Longrightarrow> softmax_spec (map (\<lambda>x. x + c) xs) = softmax_spec xs"
  by (simp add: softmax_spec_def fold_max_shift comp_def)

lemma softmax_spec_nonneg: "xs \<noteq> [] \<Longrightarrow> p \<in> set (softmax_spec xs) \<Longrightarrow> 0 \<le> p"
proof -
  assume ne: "xs \<noteq> []" and p: "p \<in> set (softmax_spec xs)"
  have "0 < (\<Sum>y\<leftarrow>xs. exp (y - fold_max xs))" by (rule sum_list_exp_pos[OF ne])
  then show ?thesis using p by (auto simp: softmax_spec_def)
qed

lemma sum_list_get_data:
  assumes "\<forall>y\<in>set ys. get_data y s' = val y s"
  shows "(\<Sum>y\<leftarrow>ys. get_data y s') = (\<Sum>y\<leftarrow>ys. val y s)"
  using assms by (induction ys) auto

text \<open>
  Claim C7. For a non-empty list of nodes, \<open>stable_softmax\<close> returns (it raises no
  exception while building) one node per input whose values are those of
  \<open>softmax_spec\<close>; whatever the data of the leaves, these values sum to 1, and they are
  the same in two states where the value of every input differs by one constant \<open>c\<close>.
  The last conjunct is the sum of the stored data after a forward sweep over an order
  that contains the results. Values are real numbers.
\<close>

theorem stable_softmax_sums_to_one:
  assumes ne: "outs \<noteq> []"
  shows "\<exists>res s'. stable_softmax outs s = Inr (res, s')
       \<and> length res = length outs
       \<and> (\<forall>\<sigma>. map (\<lambda>y. val y \<sigma>) res = softmax_spec (map (\<lambda>x. val x \<sigma>) outs))
       \<and> (\<forall>\<sigma>. (\<Sum>y\<leftarrow>res. val y \<sigma>) = 1)
       \<and> (\<forall>\<sigma> \<sigma>' c. (\<forall>x\<in>set outs. val x \<sigma>' = val x \<sigma> + c) \<longrightarrow>
              map (\<lambda>y. val y \<sigma>') res = map (\<lambda>y. val y \<sigma>) res)
       \<and> (\<forall>r s0 \<sigma> \<sigma>'. unique_ids (subnodes r) \<longrightarrow> (\<forall>x\<in>subnodes r. \<not> visited s0 (ident x)) \<longrightarrow>
              set res \<subseteq> subnodes r \<longrightarrow> run_forward (fst (topo r s0)) \<sigma> = Inr \<sigma>' \<longrightarrow>
              (\<Sum>y\<leftarrow>res. get_data y \<sigma>') = 1)"
proof -
  from stable_softmax_val[OF ne, of s]
  obtain res s' where run: "stable_softmax outs s = Inr (res, s')"
    and vals: "\<forall>\<sigma>. map (\<lambda>y. val y \<sigma>) res = softmax_spec (map (\<lambda>x. val x \<sigma>) outs)"
    by blast
  have len: "length res = length outs"
  proof -
    have "length (map (\<lambda>y. val y s) res) = length (softmax_spec (map (\<lambda>x. val x s) outs))"
      using vals by simp
    then show ?thesis by (simp add: softmax_spec_def)
  qed
  have one: "(\<Sum>y\<leftarrow>res. val y \<sigma>) = 1" for \<sigma>
  proof -
    have "(\<Sum>y\<leftarrow>res. val y \<sigma>) = sum_list (softmax_spec (map (\<lambda>x. val x \<sigma>) outs))"
      using vals by simp
    then show ?thesis using softmax_spec_sum[of "map (\<lambda>x. val x \<sigma>) outs"] ne by simp
  qed
  have shift: "map (\<lambda>y. val y \<sigma>') res = map (\<lambda>y. val y \<sigma>) res"
    if "\<forall>x\<in>set outs. val x \<sigma>' = val x \<sigma> + c" for \<sigma> \<sigma>' c
  proof -
    have eq: "map (\<lambda>x. val x \<sigma>') outs = map (\<lambda>v. v + c) (map (\<lambda>x. val x \<sigma>) outs)"
      using that by simp
    have "softmax_spec (map (\<lambda>v. v + c) (map (\<lambda>x. val x \<sigma>) outs))
            = softmax_spec (map (\<lambda>x. val x \<sigma>) outs)"
      by (rule softmax_spec_shift) (use ne in simp)
    then have "softmax_spec (map (\<lambda>x. val x \<sigma>') outs) = softmax_spec (map (\<lambda>x. val x \<sigma>) outs)"
      unfolding eq .
    then show ?thesis using vals by simp
  qed
  have sweep: "(\<Sum>y\<leftarrow>res. get_data y \<sigma>') = 1"
    if "unique_ids (subnodes r)" "\<forall>x\<in>subnodes r. \<not> visited s0 (ident x)"
      "set res \<subseteq> subnodes r" "run_forward (fst (topo r s0)) \<sigma> = Inr \<sigma>'" for r s0 \<sigma> \<sigma>'
  proof -
    have "\<forall>x\<in>subnodes r. get_data x \<sigma>' = val x \<sigma>"
      using forward_sweep[OF that(1,2), of \<sigma>] that(4) by blast
    then have "\<forall>y\<in>set res. get_data y \<sigma>' = val y \<sigma>" using that(3) by blast
    then have "(\<Sum>y\<leftarrow>res. get_data y \<sigma>') = (\<Sum>y\<leftarrow>res. val y \<sigma>)" by (rule sum_list_get_data)
    then show ?thesis using one by simp
  qed
  show ?thesis
    using run len vals one shift sweep by blast
qed

lemma math_log_pos: "0 < x \<Longrightarrow> math_log x = Inr (ln x)"
  by (simp add: math_log_def)

lemma loss_loop_val:
  assumes "length es \<le> length acts"
  shows "\<exists>r s'. loss_loop es acts result s = Inr (r, s')
           \<and> (\<forall>\<sigma>. (\<forall>act\<in>set acts. 0 \<le> val act \<sigma>) \<longrightarrow>
                 val r \<sigma> = val result \<sigma>
                    + (\<Sum>(e, act)\<leftarrow>zip es acts. ln (val act \<sigma> + 1 / 10000) * val e \<sigma>))"
  using assms
proof (induction es arbitrary: acts result s)
  case Nil
  then show ?case by simp
next
  case (Cons e es acts0)
  then obtain act acts where acts0: "acts0 = act # acts" by (cases acts0) auto
  let ?c = "Const (next_id s) 0.0001"
  let ?s1 = "snd (alloc s)"
  let ?a = "BinaryValue (next_id ?s1) AddValue act ?c"
  let ?s2 = "snd (alloc ?s1)"
  let ?lg = "UnaryValue (next_id ?s2) LogValue ?a"
  let ?s3 = "snd (alloc ?s2)"
  let ?m = "BinaryValue (next_id ?s3) MulValue ?lg e"
  let ?s4 = "snd (alloc ?s3)"
  let ?r = "BinaryValue (next_id ?s4) AddValue result ?m"
  let ?s5 = "snd (alloc ?s4)"
  have step: "loss_loop (e # es) (act # acts) result s = loss_loop es acts ?r ?s5"
    by (simp add: node_new_eqs)
  have len: "length es \<le> length acts" using Cons.prems acts0 by simp
  from Cons.IH[OF len, of ?r ?s5]
  obtain r s' where run: "loss_loop es acts ?r ?s5 = Inr (r, s')"
    and v: "\<forall>\<sigma>. (\<forall>act\<in>set acts. 0 \<le> val act \<sigma>) \<longrightarrow>
                 val r \<sigma> = val ?r \<sigma>
                    + (\<Sum>(e, act)\<leftarrow>zip es acts. ln (val act \<sigma> + 1 / 10000) * val e \<sigma>)"
    by (auto simp: node_new_eqs)
  have "val r \<sigma> = val result \<sigma>
           + (\<Sum>(e, act)\<leftarrow>zip (e # es) (act # acts). ln (val act \<sigma> + 1 / 10000) * val e \<sigma>)"
    if nn: "\<forall>a\<in>set (act # acts). 0 \<le> val a \<sigma>" for \<sigma>
  proof -
    have "0 < val act \<sigma> + 1 / 10000" using nn by (simp add: add_nonneg_pos)
    then have "val ?lg \<sigma> = ln (val act \<sigma> + 1 / 10000)" by (simp add: math_log_pos)
    then have "val ?r \<sigma> = val result \<sigma> + ln (val act \<sigma> + 1 / 10000) * val e \<sigma>" by simp
    then show ?thesis using v nn by simp
  qed
  then show ?case using run step unfolding acts0 by auto
qed

lemma loss_loop_grows:
  assumes "graph_ok s U" "set es \<subseteq> U" "set acts \<subseteq> U" "result \<in> U" "length es \<le> length acts"
    "\<forall>act\<in>set acts. \<forall>\<sigma>. 0 \<le> val act \<sigma>"
  shows "\<exists>r s' U'. loss_loop es acts result s = Inr (r, s') \<and> grows s U s' U' \<and> r \<in> U'"
  using assms
proof (induction es arbitrary: acts result s U)
  case Nil
  have "grows s U s U" by (rule grows_refl[OF Nil.prems(1)])
  then show ?case using Nil.prems(4) by auto
next
  case (Cons e es acts0)
  then obtain act acts where acts0: "acts0 = act # acts" by (cases acts0) auto
  note prems = Cons.prems[unfolded acts0]
  obtain c s1 where c: "Const_new 0.0001 s = (c, s1)" by (cases "Const_new 0.0001 s")
  obtain a s2 where a: "add_node act c s1 = (a, s2)" by (cases "add_node act c s1")
  obtain lg s3 where lg: "log_node a s2 = (lg, s3)" by (cases "log_node a s2")
  obtain m s4 where m: "mul_node lg e s3 = (m, s4)" by (cases "mul_node lg e s3")
  obtain r s5 where r: "add_node result m s4 = (r, s5)" by (cases "add_node result m s4")
  have step: "loss_loop (e # es) (act # acts) result s = loss_loop es acts r s5"
    using c a lg m r by simp
  let ?U1 = "insert c U" let ?U2 = "insert a ?U1" let ?U3 = "insert lg ?U2"
  let ?U4 = "insert m ?U3" let ?U5 = "insert r ?U4"
  have eU: "e \<in> U" and actU: "act \<in> U" and resU: "result \<in> U"
    using prems by auto
  have g1: "grows s U s1 ?U1" using Const_new_grows[OF prems(1), of "0.0001"] c by simp
  have g2: "grows s1 ?U1 s2 ?U2"
    using add_node_grows[OF growsD(2)[OF g1], of act c] actU a by simp
  have apos: "\<forall>\<sigma>. 0 < val a \<sigma>"
  proof
    fix \<sigma>
    have "0 \<le> val act \<sigma>" using prems(6) by simp
    moreover have "val a \<sigma> = val act \<sigma> + 1 / 10000"
      using a c by (simp add: node_new_eqs) (metis fst_conv val.simps(1,3))
    ultimately show "0 < val a \<sigma>" by simp
  qed
  have g3: "grows s2 ?U2 s3 ?U3"
    using log_node_grows[OF growsD(2)[OF g2] _ apos] lg by simp
  have g4: "grows s3 ?U3 s4 ?U4"
    using mul_node_grows[OF growsD(2)[OF g3], of lg e] eU m by simp
  have g5: "grows s4 ?U4 s5 ?U5"
    using add_node_grows[OF growsD(2)[OF g4], of result m] resU r by simp
  have g: "grows s U s5 ?U5"
    by (rule grows_trans[OF grows_trans[OF grows_trans[OF grows_trans[OF g1 g2] g3] g4] g5])
  have "\<exists>r' s' U'. loss_loop es acts r s5 = Inr (r', s') \<and> grows s5 ?U5 s' U' \<and> r' \<in> U'"
  proof (rule Cons.IH)
    show "graph_ok s5 ?U5" by (rule growsD(2)[OF g])
    show "set es \<subseteq> ?U5" "set acts \<subseteq> ?U5" using prems by auto
    show "r \<in> ?U5" by simp
    show "length es \<le> length acts" using prems by simp
    show "\<forall>act\<in>set acts. \<forall>\<sigma>. 0 \<le> val act \<sigma>" using prems by simp
  qed
  then obtain r' s' U' where r': "loss_loop es acts r s5 = Inr (r', s')" "grows s5 ?U5 s' U'" "r' \<in> U'"
    by blast
  have "grows s U s' U'" by (rule grows_trans[OF g r'(2)])
  then show ?case using step r' unfolding acts0 by auto
qed

lemma graph_ok_root:
  assumes "graph_ok s U" "r \<in> U"
  shows "unique_ids (subnodes r)" "\<forall>x\<in>subnodes r. \<not> visited s (ident x)" "subnodes r \<subseteq> U"
proof -
  show sub: "subnodes r \<subseteq> U" using assms by (auto simp: graph_ok_def)
  show "unique_ids (subnodes r)" using assms sub unique_ids_subset by (auto simp: graph_ok_def)
  show "\<forall>x\<in>subnodes r. \<not> visited s (ident x)" using assms sub by (auto simp: graph_ok_def)
qed

lemma sum_zip_vals:
  "(\<Sum>(e, act)\<leftarrow>zip es acts. f (val e \<sigma>) (val act \<sigma>))
     = (\<Sum>(t, p)\<leftarrow>zip (map (\<lambda>x. val x \<sigma>) es) (map (\<lambda>x. val x \<sigma>) acts). f t p)"
  by (induction es acts rule: list_induct2') auto

lemma left_fold_rev_step:
  "pre \<noteq> [] \<Longrightarrow> left_fold_rev k acc (rev pre)
     \<Longrightarrow> left_fold_rev k (BinaryValue i k acc x) (rev (pre @ [x]))"
  by (cases "rev pre") auto

lemma max_loop_fold:
  assumes "pre \<noteq> []" "left_fold_rev MaxValue acc (rev pre)"
  shows "left_fold_rev MaxValue (fst (max_loop acc xs s)) (rev (pre @ xs))"
  using assms
proof (induction xs arbitrary: acc pre s)
  case Nil
  then show ?case by simp
next
  case (Cons x xs)
  have "left_fold_rev MaxValue (BinaryValue (next_id s) MaxValue acc x) (rev (pre @ [x]))"
    by (rule left_fold_rev_step[OF Cons.prems])
  then have "left_fold_rev MaxValue
      (fst (max_loop (BinaryValue (next_id s) MaxValue acc x) xs (snd (alloc s))))
      (rev ((pre @ [x]) @ xs))"
    by (intro Cons.IH) simp_all
  then show ?case by (simp add: node_new_eqs)
qed

lemma sum_loop_fold:
  assumes "pre \<noteq> []" "left_fold_rev AddValue acc (rev pre)"
  shows "left_fold_rev AddValue (fst (sum_loop acc xs s)) (rev (pre @ xs))"
  using assms
proof (induction xs arbitrary: acc pre s)
  case Nil
  then show ?case by simp
next
  case (Cons x xs)
  have "left_fold_rev AddValue (BinaryValue (next_id s) AddValue acc x) (rev (pre @ [x]))"
    by (rule left_fold_rev_step[OF Cons.prems])
  then have "left_fold_rev AddValue
      (fst (sum_loop (BinaryValue (next_id s) AddValue acc x) xs (snd (alloc s))))
      (rev ((pre @ [x]) @ xs))"
    by (intro Cons.IH) simp_all
  then show ?case by (simp add: node_new_eqs)
qed

lemma max_loop_is_left_fold: "is_left_fold MaxValue (fst (max_loop x xs s)) (x # xs)"
  using max_loop_fold[of "[x]" x xs s] by (simp add: is_left_fold_def)

lemma sum_loop_is_left_fold: "is_left_fold AddValue (fst (sum_loop x xs s)) (x # xs)"
  using sum_loop_fold[of "[x]" x xs s] by (simp add: is_left_fold_def)

lemma map_new_list_all2:
  assumes "\<And>x s. P (fst (f x s)) x"
  shows "list_all2 P (fst (map_new f xs s)) xs"
proof (induction xs arbitrary: s)
  case Nil
  then show ?case by simp
next
  case (Cons x xs)
  show ?case using assms[of x s] Cons.IH[of "snd (f x s)"] by (simp add: split_beta)
qed

lemma is_sub_sub_node: "is_sub (fst (sub_node a b s)) a b"
  by (simp add: sub_node_def node_new_eqs Let_def)

lemma is_div_div_node: "is_div (fst (div_node a b s)) a b"
  by (simp add: div_node_def node_new_eqs Let_def)

lemma is_exp_exp_node: "is_exp (fst (exp_node a s)) a"
  by (simp add: node_new_eqs)

lemma is_sub_subnodes: "is_sub x a b \<Longrightarrow> a \<in> subnodes x \<and> b \<in> subnodes x"
  by (induction x a b rule: is_sub.induct) auto

lemma is_div_subnodes: "is_div x a b \<Longrightarrow> a \<in> subnodes x \<and> b \<in> subnodes x"
  by (induction x a b rule: is_div.induct) auto

lemma is_exp_subnodes: "is_exp x a \<Longrightarrow> a \<in> subnodes x"
  by (induction x a rule: is_exp.induct) auto

lemma stable_softmax_graph:
  assumes ne: "outs \<noteq> []"
  shows "\<exists>m shiftx exps sum_v sm s'.
           stable_softmax outs s = Inr (sm, s')
         \<and> is_left_fold MaxValue m outs
         \<and> list_all2 (\<lambda>x o'. is_sub x o' m) shiftx outs
         \<and> list_all2 is_exp exps shiftx
         \<and> is_left_fold AddValue sum_v exps
         \<and> list_all2 (\<lambda>y e. is_div y e sum_v) sm exps
         \<and> (\<forall>\<sigma>. val m \<sigma> = fold_max (map (\<lambda>x. val x \<sigma>) outs))
         \<and> (\<forall>\<sigma>. map (\<lambda>x. val x \<sigma>) shiftx = map (\<lambda>x. val x \<sigma> - val m \<sigma>) outs)
         \<and> (\<forall>\<sigma>. map (\<lambda>e. val e \<sigma>) exps = map (\<lambda>x. exp (val x \<sigma>)) shiftx)
         \<and> (\<forall>\<sigma>. val sum_v \<sigma> = (\<Sum>e\<leftarrow>exps. val e \<sigma>))
         \<and> (\<forall>\<sigma>. map (\<lambda>y. val y \<sigma>) sm = map (\<lambda>e. val e \<sigma> / val sum_v \<sigma>) exps)"
proof -
  from stable_softmax_steps[OF ne, of s]
  obtain max_v s1 shiftx s2 exps s3 sum_v s4 res s5 where
    mx: "max_loop (hd outs) (tl outs) s = (max_v, s1)"
    and sh: "map_new (\<lambda>x. sub_node x max_v) outs s1 = (shiftx, s2)"
    and ex: "map_new exp_node shiftx s2 = (exps, s3)"
    and ene: "exps \<noteq> []"
    and sm: "sum_loop (hd exps) (tl exps) s3 = (sum_v, s4)"
    and rs: "map_new (\<lambda>x. div_node x sum_v) exps s4 = (res, s5)"
    and run: "stable_softmax outs s = Inr (res, s5)"
    and pos: "\<forall>\<sigma>. 0 < val sum_v \<sigma>"
    by blast
  have a: "is_left_fold MaxValue max_v outs"
    using max_loop_is_left_fold[of "hd outs" "tl outs" s] mx ne by simp
  have b: "list_all2 (\<lambda>x o'. is_sub x o' max_v) shiftx outs"
    using map_new_list_all2[of "\<lambda>x o'. is_sub x o' max_v" "\<lambda>x. sub_node x max_v" outs s1] sh
    by (simp add: is_sub_sub_node)
  have c: "list_all2 is_exp exps shiftx"
    using map_new_list_all2[of is_exp exp_node shiftx s2] ex by (simp add: is_exp_exp_node)
  have d: "is_left_fold AddValue sum_v exps"
    using sum_loop_is_left_fold[of "hd exps" "tl exps" s3] sm ene by simp
  have e: "list_all2 (\<lambda>y e. is_div y e sum_v) res exps"
    using map_new_list_all2[of "\<lambda>y e. is_div y e sum_v" "\<lambda>x. div_node x sum_v" exps s4] rs
    by (simp add: is_div_div_node)
  have m: "val max_v \<sigma> = fold_max (map (\<lambda>x. val x \<sigma>) outs)" for \<sigma>
    using max_loop_val[of "hd outs" "tl outs" s \<sigma>] mx ne
    by (simp add: fold_max_def hd_map map_tl)
  have v1: "map (\<lambda>x. val x \<sigma>) shiftx = map (\<lambda>x. val x \<sigma> - val max_v \<sigma>) outs" for \<sigma>
    using map_new_val[of "\<lambda>x. sub_node x max_v" \<sigma> "\<lambda>x. val x \<sigma> - val max_v \<sigma>" outs s1] sh
    by (simp add: sub_node_val)
  have v2: "map (\<lambda>e. val e \<sigma>) exps = map (\<lambda>x. exp (val x \<sigma>)) shiftx" for \<sigma>
    using map_new_val[of exp_node \<sigma> "\<lambda>x. exp (val x \<sigma>)" shiftx s2] ex
    by (simp add: node_new_eqs)
  have v3: "val sum_v \<sigma> = (\<Sum>e\<leftarrow>exps. val e \<sigma>)" for \<sigma>
  proof -
    obtain e0 erest where exps: "exps = e0 # erest" using ene by (cases exps) auto
    show ?thesis using sum_loop_val[of e0 erest s3 \<sigma>] sm by (simp add: exps)
  qed
  have v4: "map (\<lambda>y. val y \<sigma>) res = map (\<lambda>e. val e \<sigma> / val sum_v \<sigma>) exps" for \<sigma>
  proof -
    have "val sum_v \<sigma> \<noteq> 0" using pos[rule_format, of \<sigma>] by simp
    then show ?thesis
      using map_new_val[of "\<lambda>x. div_node x sum_v" \<sigma> "\<lambda>x. val x \<sigma> / val sum_v \<sigma>" exps s4] rs
      by (simp add: div_node_val)
  qed
  show ?thesis using run a b c d e m v1 v2 v3 v4 by blast
qed

lemma loss_loop_subnodes:
  assumes "loss_loop es acts result s = Inr (r, s')"
  shows "result \<in> subnodes r \<and> set (take (length es) acts) \<subseteq> subnodes r"
  using assms
proof (induction es arbitrary: acts result s)
  case Nil
  then show ?case by simp
next
  case (Cons e es acts0)
  then obtain act acts where acts0: "acts0 = act # acts" by (cases acts0) auto
  let ?c = "Const (next_id s) 0.0001"
  let ?s1 = "snd (alloc s)"
  let ?a = "BinaryValue (next_id ?s1) AddValue act ?c"
  let ?s2 = "snd (alloc ?s1)"
  let ?lg = "UnaryValue (next_id ?s2) LogValue ?a"
  let ?s3 = "snd (alloc ?s2)"
  let ?m = "BinaryValue (next_id ?s3) MulValue ?lg e"
  let ?s4 = "snd (alloc ?s3)"
  let ?r = "BinaryValue (next_id ?s4) AddValue result ?m"
  let ?s5 = "snd (alloc ?s4)"
  have step: "loss_loop (e # es) (act # acts) result s = loss_loop es acts ?r ?s5"
    by (simp add: node_new_eqs)
  then have "loss_loop es acts ?r ?s5 = Inr (r, s')" using Cons.prems acts0 by simp
  from Cons.IH[OF this]
  have ih: "?r \<in> subnodes r" "set (take (length es) acts) \<subseteq> subnodes r" by simp_all
  have "result \<in> subnodes ?r" "act \<in> subnodes ?r" by simp_all
  then have "result \<in> subnodes r" "act \<in> subnodes r"
    using ih(1) subnodes_trans by blast+
  then show ?case using ih(2) acts0 by simp
qed

lemma softmax_graph_subnodes:
  assumes b: "list_all2 (\<lambda>x o'. is_sub x o' m) shiftx outs"
    and c: "list_all2 is_exp exps shiftx"
    and e: "list_all2 (\<lambda>y e. is_div y e sum_v) sm exps"
    and ne: "outs \<noteq> []" and sub: "set sm \<subseteq> subnodes l"
  shows "insert m (insert sum_v (set shiftx \<union> set exps \<union> set sm)) \<subseteq> subnodes l"
proof -
  have len: "length shiftx = length outs" "length exps = length shiftx" "length sm = length exps"
    using b c e by (simp_all add: list_all2_lengthD)
  have smi: "sm ! i \<in> subnodes l" if "i < length outs" for i
    using that len sub nth_mem[of i sm] by auto
  have exi: "exps ! i \<in> subnodes l" "sum_v \<in> subnodes l" if i: "i < length outs" for i
  proof -
    have "is_div (sm ! i) (exps ! i) sum_v" using e i len by (simp add: list_all2_conv_all_nth)
    then have "exps ! i \<in> subnodes (sm ! i)" "sum_v \<in> subnodes (sm ! i)"
      using is_div_subnodes by blast+
    then show "exps ! i \<in> subnodes l" "sum_v \<in> subnodes l"
      using smi[OF i] subnodes_trans by blast+
  qed
  have shi: "shiftx ! i \<in> subnodes l" if i: "i < length outs" for i
  proof -
    have "is_exp (exps ! i) (shiftx ! i)" using c i len by (simp add: list_all2_conv_all_nth)
    then have "shiftx ! i \<in> subnodes (exps ! i)" by (rule is_exp_subnodes)
    then show ?thesis using exi(1)[OF i] subnodes_trans by blast
  qed
  have z: "0 < length outs" using ne by simp
  have "is_sub (shiftx ! 0) (outs ! 0) m" using b z len by (simp add: list_all2_conv_all_nth)
  then have "m \<in> subnodes (shiftx ! 0)" using is_sub_subnodes by blast
  then have m: "m \<in> subnodes l" using shi[OF z] subnodes_trans by blast
  have "set shiftx \<subseteq> subnodes l" using shi len by (auto simp: in_set_conv_nth)
  moreover have "set exps \<subseteq> subnodes l" using exi(1) len by (auto simp: in_set_conv_nth)
  ultimately show ?thesis using m exi(2)[OF z] sub by simp
qed

text \<open>
  Claim C4. When the model returns the non-empty list \<open>outs\<close> and \<open>expected\<close> has as many
  elements, \<open>loss_of\<close> returns a node \<open>l\<close> whose graph contains the nodes of every step:
  \<open>m\<close>, the fold of \<open>Max\<close> from the left over the outputs, whose value is the fold of
  \<open>max\<close> from the left over their values; for each output the node \<open>o.sub(m)\<close>, whose
  value is the difference; for each of these its \<open>exp()\<close> node, whose value is the
  exponential; \<open>sum_v\<close>, the fold of \<open>add\<close> from the left over the exponentials, whose
  value is their sum; and for each exponential the node \<open>e.div(sum_v)\<close>, whose value is
  the quotient, these being the list that \<open>stable_softmax\<close> returns. The value of
  \<open>l\<close> is minus the sum of \<open>t * log (softmax + 1e-4)\<close> over the targets and these nodes,
  which is \<open>loss_spec\<close> of the values of \<open>outs\<close> and of \<open>expected\<close>. In a well-formed
  graph the new nodes raise no exception, and a forward sweep over the topological order
  of the loss stores in the data of every node of the graph its value, that of the loss
  node included.
\<close>

theorem loss_of_computes:
  assumes mlp: "evalmlp model inputs s = Inr (outs, s1)" and ne: "outs \<noteq> []"
    and len: "length expected = length outs"
  shows "\<exists>l s2 m shiftx exps sum_v sm s_sm.
        loss_of model inputs expected s = Inr (l, s2)
      \<and> stable_softmax outs s1 = Inr (sm, s_sm)
      \<and> is_left_fold MaxValue m outs
      \<and> list_all2 (\<lambda>x o'. is_sub x o' m) shiftx outs
      \<and> list_all2 is_exp exps shiftx
      \<and> is_left_fold AddValue sum_v exps
      \<and> list_all2 (\<lambda>y e. is_div y e sum_v) sm exps
      \<and> insert m (insert sum_v (set shiftx \<union> set exps \<union> set sm)) \<subseteq> subnodes l
      \<and> (\<forall>\<sigma>. val m \<sigma> = fold_max (map (\<lambda>x. val x \<sigma>) outs))
      \<and> (\<forall>\<sigma>. map (\<lambda>x. val x \<sigma>) shiftx = map (\<lambda>x. val x \<sigma> - val m \<sigma>) outs)
      \<and> (\<forall>\<sigma>. map (\<lambda>e. val e \<sigma>) exps = map (\<lambda>x. exp (val x \<sigma>)) shiftx)
      \<and> (\<forall>\<sigma>. val sum_v \<sigma> = (\<Sum>e\<leftarrow>exps. val e \<sigma>))
      \<and> (\<forall>\<sigma>. map (\<lambda>y. val y \<sigma>) sm = map (\<lambda>e. val e \<sigma> / val sum_v \<sigma>) exps)
      \<and> (\<forall>\<sigma>. val l \<sigma> = - (\<Sum>(t, p)\<leftarrow>zip expected sm. val t \<sigma> * ln (val p \<sigma> + 1 / 10000)))
      \<and> (\<forall>\<sigma>. val l \<sigma> = loss_spec (map (\<lambda>x. val x \<sigma>) outs) (map (\<lambda>t. val t \<sigma>) expected))
      \<and> (\<forall>U. graph_ok s1 U \<longrightarrow> set outs \<subseteq> U \<longrightarrow> set expected \<subseteq> U \<longrightarrow>
            unique_ids (subnodes l) \<and> (\<forall>x\<in>subnodes l. \<not> visited s2 (ident x))
            \<and> (\<forall>\<sigma>. (\<forall>x\<in>U. \<not> raises x \<sigma>) \<longrightarrow>
                 (\<exists>\<sigma>'. run_forward (fst (topo l s2)) \<sigma> = Inr \<sigma>'
                     \<and> (\<forall>x\<in>subnodes l. get_data x \<sigma>' = val x \<sigma>)
                     \<and> data \<sigma>' (ident l)
                         = loss_spec (map (\<lambda>x. val x \<sigma>) outs) (map (\<lambda>t. val t \<sigma>) expected))))"
proof -
  from stable_softmax_graph[OF ne, of s1]
  obtain m shiftx exps sum_v sm s2 where sm: "stable_softmax outs s1 = Inr (sm, s2)"
    and g1: "is_left_fold MaxValue m outs"
    and g2: "list_all2 (\<lambda>x o'. is_sub x o' m) shiftx outs"
    and g3: "list_all2 is_exp exps shiftx"
    and g4: "is_left_fold AddValue sum_v exps"
    and g5: "list_all2 (\<lambda>y e. is_div y e sum_v) sm exps"
    and v1: "\<forall>\<sigma>. val m \<sigma> = fold_max (map (\<lambda>x. val x \<sigma>) outs)"
    and v2: "\<forall>\<sigma>. map (\<lambda>x. val x \<sigma>) shiftx = map (\<lambda>x. val x \<sigma> - val m \<sigma>) outs"
    and v3: "\<forall>\<sigma>. map (\<lambda>e. val e \<sigma>) exps = map (\<lambda>x. exp (val x \<sigma>)) shiftx"
    and v4: "\<forall>\<sigma>. val sum_v \<sigma> = (\<Sum>e\<leftarrow>exps. val e \<sigma>)"
    and v5: "\<forall>\<sigma>. map (\<lambda>y. val y \<sigma>) sm = map (\<lambda>e. val e \<sigma> / val sum_v \<sigma>) exps"
    by blast
  have vals: "\<forall>\<sigma>. map (\<lambda>y. val y \<sigma>) sm = softmax_spec (map (\<lambda>x. val x \<sigma>) outs)"
    using stable_softmax_val[OF ne, of s1] sm by auto
  have len_sm: "length sm = length outs"
    using g5 g3 g2 by (simp add: list_all2_lengthD)
  have nonneg: "\<forall>act\<in>set sm. \<forall>\<sigma>. 0 \<le> val act \<sigma>"
  proof (intro ballI allI)
    fix act \<sigma> assume "act \<in> set sm"
    then have "val act \<sigma> \<in> set (map (\<lambda>y. val y \<sigma>) sm)" by simp
    then have "val act \<sigma> \<in> set (softmax_spec (map (\<lambda>x. val x \<sigma>) outs))" using vals by simp
    then show "0 \<le> val act \<sigma>" using softmax_spec_nonneg[of "map (\<lambda>x. val x \<sigma>) outs"] ne by simp
  qed
  obtain result0 s3 where r0: "Const_new 0 s2 = (result0, s3)" by (cases "Const_new 0 s2")
  have le: "length expected \<le> length sm" using len len_sm by simp
  from loss_loop_val[OF le, of result0 s3]
  obtain result s4 where ll: "loss_loop expected sm result0 s3 = Inr (result, s4)"
    and lv: "\<forall>\<sigma>. (\<forall>act\<in>set sm. 0 \<le> val act \<sigma>) \<longrightarrow>
                 val result \<sigma> = val result0 \<sigma>
                    + (\<Sum>(e, act)\<leftarrow>zip expected sm. ln (val act \<sigma> + 1 / 10000) * val e \<sigma>)"
    by blast
  obtain c s5 where c: "Const_new (- 1) s4 = (c, s5)" by (cases "Const_new (- 1) s4")
  obtain l s6 where l: "mul_node result c s5 = (l, s6)" by (cases "mul_node result c s5")
  have run: "loss_of model inputs expected s = Inr (l, s6)"
    using mlp sm r0 ll c l by (simp add: loss_of_def)
  have r0v: "val result0 \<sigma> = 0" for \<sigma> using r0 by (auto simp: node_new_eqs)
  have cv: "val c \<sigma> = - 1" for \<sigma> using c by (auto simp: node_new_eqs)
  have l_eq: "l = BinaryValue (next_id s5) MulValue result c" using l by (simp add: node_new_eqs)
  have rval: "val result \<sigma> = (\<Sum>(e, act)\<leftarrow>zip expected sm. val e \<sigma> * ln (val act \<sigma> + 1 / 10000))"
    for \<sigma> using lv nonneg r0v by (simp add: mult.commute)
  have lsum: "val l \<sigma> = - (\<Sum>(t, p)\<leftarrow>zip expected sm. val t \<sigma> * ln (val p \<sigma> + 1 / 10000))" for \<sigma>
    using rval[of \<sigma>] by (simp add: l_eq cv)
  have lval: "val l \<sigma> = loss_spec (map (\<lambda>x. val x \<sigma>) outs) (map (\<lambda>t. val t \<sigma>) expected)" for \<sigma>
  proof -
    have "val result \<sigma> = (\<Sum>(t, p)\<leftarrow>zip (map (\<lambda>x. val x \<sigma>) expected) (map (\<lambda>x. val x \<sigma>) sm).
                         t * ln (p + 1 / 10000))"
      unfolding rval by (rule sum_zip_vals[of "\<lambda>t p. t * ln (p + 1 / 10000)"])
    then have "val result \<sigma> = - loss_spec (map (\<lambda>x. val x \<sigma>) outs) (map (\<lambda>t. val t \<sigma>) expected)"
      using vals by (simp add: loss_spec_def)
    then show ?thesis by (simp add: l_eq cv)
  qed
  have "set (take (length expected) sm) \<subseteq> subnodes result"
    using loss_loop_subnodes[OF ll] by simp
  then have "set sm \<subseteq> subnodes result" using len len_sm by simp
  moreover have "subnodes result \<subseteq> subnodes l" by (auto simp: l_eq)
  ultimately have "set sm \<subseteq> subnodes l" by blast
  then have inside: "insert m (insert sum_v (set shiftx \<union> set exps \<union> set sm)) \<subseteq> subnodes l"
    by (rule softmax_graph_subnodes[OF g2 g3 g5 ne])
  have oper: "unique_ids (subnodes l) \<and> (\<forall>x\<in>subnodes l. \<not> visited s6 (ident x))
            \<and> (\<forall>\<sigma>. (\<forall>x\<in>U. \<not> raises x \<sigma>) \<longrightarrow>
                 (\<exists>\<sigma>'. run_forward (fst (topo l s6)) \<sigma> = Inr \<sigma>'
                     \<and> (\<forall>x\<in>subnodes l. get_data x \<sigma>' = val x \<sigma>)
                     \<and> data \<sigma>' (ident l)
                         = loss_spec (map (\<lambda>x. val x \<sigma>) outs) (map (\<lambda>t. val t \<sigma>) expected)))"
    if ok: "graph_ok s1 U" and oU: "set outs \<subseteq> U" and eU: "set expected \<subseteq> U" for U
  proof -
    from stable_softmax_grows[OF ok oU ne] sm
    obtain U2 where U2: "grows s1 U s2 U2" "set sm \<subseteq> U2" by auto
    have g3: "grows s2 U2 s3 (insert result0 U2)"
      using Const_new_grows[OF growsD(2)[OF U2(1)], of 0] r0 by simp
    let ?U3 = "insert result0 U2"
    have "\<exists>r s' U'. loss_loop expected sm result0 s3 = Inr (r, s') \<and> grows s3 ?U3 s' U' \<and> r \<in> U'"
    proof (rule loss_loop_grows[OF growsD(2)[OF g3] _ _ _ le nonneg])
      show "set expected \<subseteq> ?U3" using eU growsD(1)[OF U2(1)] by auto
      show "set sm \<subseteq> ?U3" using U2(2) by auto
      show "result0 \<in> ?U3" by simp
    qed
    then obtain U4 where U4: "grows s3 ?U3 s4 U4" "result \<in> U4" using ll by auto
    have g5: "grows s4 U4 s5 (insert c U4)"
      using Const_new_grows[OF growsD(2)[OF U4(1)], of "- 1"] c by simp
    have g6: "grows s5 (insert c U4) s6 (insert l (insert c U4))"
      using mul_node_grows[OF growsD(2)[OF g5], of result c] U4(2) l by simp
    let ?U6 = "insert l (insert c U4)"
    have g: "grows s1 U s6 ?U6"
      by (rule grows_trans[OF grows_trans[OF grows_trans[OF grows_trans[OF U2(1) g3] U4(1)] g5] g6])
    have ok6: "graph_ok s6 ?U6" by (rule growsD(2)[OF g])
    have lU: "l \<in> ?U6" by simp
    note root = graph_ok_root[OF ok6 lU]
    have sweep: "\<exists>\<sigma>'. run_forward (fst (topo l s6)) \<sigma> = Inr \<sigma>'
                     \<and> (\<forall>x\<in>subnodes l. get_data x \<sigma>' = val x \<sigma>)
                     \<and> data \<sigma>' (ident l)
                         = loss_spec (map (\<lambda>x. val x \<sigma>) outs) (map (\<lambda>t. val t \<sigma>) expected)"
      if nr: "\<forall>x\<in>U. \<not> raises x \<sigma>" for \<sigma>
    proof -
      have "\<not> raises x \<sigma>" if "x \<in> subnodes l" for x
      proof (cases "x \<in> U")
        case True
        then show ?thesis using nr by simp
      next
        case False
        have "x \<in> ?U6" using that root(3) by blast
        then show ?thesis using growsD(4)[OF g _ False] by blast
      qed
      then have "\<forall>x\<in>subnodes l. \<not> raises x \<sigma>" by blast
      then obtain \<sigma>' where s': "run_forward (fst (topo l s6)) \<sigma> = Inr \<sigma>'"
        using forward_sweep[OF root(1,2), of \<sigma>] by blast
      then have all: "\<forall>x\<in>subnodes l. get_data x \<sigma>' = val x \<sigma>"
        using forward_sweep[OF root(1,2), of \<sigma>] by blast
      then have "get_data l \<sigma>' = val l \<sigma>" by (meson subnodes_self)
      then have "data \<sigma>' (ident l) = val l \<sigma>" by (simp add: l_eq)
      then show ?thesis using s' all lval by auto
    qed
    show ?thesis using root(1,2) sweep by blast
  qed
  have lsum': "\<forall>\<sigma>. val l \<sigma> = - (\<Sum>(t, p)\<leftarrow>zip expected sm. val t \<sigma> * ln (val p \<sigma> + 1 / 10000))"
    using lsum by blast
  have lval': "\<forall>\<sigma>. val l \<sigma> = loss_spec (map (\<lambda>x. val x \<sigma>) outs) (map (\<lambda>t. val t \<sigma>) expected)"
    using lval by blast
  have oper': "\<forall>U. graph_ok s1 U \<longrightarrow> set outs \<subseteq> U \<longrightarrow> set expected \<subseteq> U \<longrightarrow>
            unique_ids (subnodes l) \<and> (\<forall>x\<in>subnodes l. \<not> visited s6 (ident x))
            \<and> (\<forall>\<sigma>. (\<forall>x\<in>U. \<not> raises x \<sigma>) \<longrightarrow>
                 (\<exists>\<sigma>'. run_forward (fst (topo l s6)) \<sigma> = Inr \<sigma>'
                     \<and> (\<forall>x\<in>subnodes l. get_data x \<sigma>' = val x \<sigma>)
                     \<and> data \<sigma>' (ident l)
                         = loss_spec (map (\<lambda>x. val x \<sigma>) outs) (map (\<lambda>t. val t \<sigma>) expected)))"
    using oper by blast
  show ?thesis
    apply (rule exI[of _ l], rule exI[of _ s6], rule exI[of _ m], rule exI[of _ shiftx])
    apply (rule exI[of _ exps], rule exI[of _ sum_v], rule exI[of _ sm], rule exI[of _ s2])
    apply (intro conjI)
    apply (rule run, rule sm, rule g1, rule g2, rule g3, rule g4, rule g5, rule inside)
    apply (rule v1, rule v2, rule v3, rule v4, rule v5, rule lsum', rule lval', rule oper')
    done
qed

theorem stable_softmax_sums_to_one_witness:
  "[Value 0, Value 1] \<noteq> []
   \<and> (\<exists>res s'. stable_softmax [Value 0, Value 1] (empty_state\<lparr>next_id := 2\<rparr>) = Inr (res, s')
         \<and> length res = 2
         \<and> (\<Sum>y\<leftarrow>res. val y (empty_state\<lparr>data := (\<lambda>i. 0)(0 := 3, 1 := 4)\<rparr>)) = 1
         \<and> map (\<lambda>y. val y (empty_state\<lparr>data := (\<lambda>i. 0)(0 := 8, 1 := 9)\<rparr>)) res
           = map (\<lambda>y. val y (empty_state\<lparr>data := (\<lambda>i. 0)(0 := 3, 1 := 4)\<rparr>)) res)"
proof -
  let ?outs = "[Value 0, Value 1]"
  let ?\<sigma> = "empty_state\<lparr>data := (\<lambda>i. 0)(0 := 3, 1 := 4)\<rparr>"
  let ?\<sigma>' = "empty_state\<lparr>data := (\<lambda>i. 0)(0 := 8, 1 := 9)\<rparr>"
  have ne: "?outs \<noteq> []" by simp
  from stable_softmax_sums_to_one[OF ne, of "empty_state\<lparr>next_id := 2\<rparr>"]
  obtain res s' where run: "stable_softmax ?outs (empty_state\<lparr>next_id := 2\<rparr>) = Inr (res, s')"
    and len: "length res = length ?outs"
    and one: "\<forall>\<sigma>. (\<Sum>y\<leftarrow>res. val y \<sigma>) = 1"
    and shift: "\<forall>\<sigma> \<sigma>' c. (\<forall>x\<in>set ?outs. val x \<sigma>' = val x \<sigma> + c) \<longrightarrow>
              map (\<lambda>y. val y \<sigma>') res = map (\<lambda>y. val y \<sigma>) res"
    by blast
  have "\<forall>x\<in>set ?outs. val x ?\<sigma>' = val x ?\<sigma> + 5" by simp
  then have inv: "map (\<lambda>y. val y ?\<sigma>') res = map (\<lambda>y. val y ?\<sigma>) res" using shift by blast
  have "length res = 2" using len by simp
  then show ?thesis using run one inv by auto
qed

theorem loss_of_computes_witness:
  "[Value 0, Value 1] \<noteq> []
   \<and> (\<exists>l s2 m shiftx.
           loss_of \<lparr>mlp_layers = [], mlp_parameters = []\<rparr> [Value 0, Value 1] [Value 2, Value 3]
              (empty_state\<lparr>next_id := 4\<rparr>) = Inr (l, s2)
         \<and> is_left_fold MaxValue m [Value 0, Value 1]
         \<and> m \<in> subnodes l \<and> set shiftx \<subseteq> subnodes l
         \<and> val m (empty_state\<lparr>data := (\<lambda>i. 0)(0 := 3, 1 := 7)\<rparr>) = 7
         \<and> map (\<lambda>x. val x (empty_state\<lparr>data := (\<lambda>i. 0)(0 := 3, 1 := 7)\<rparr>)) shiftx = [- 4, 0]
         \<and> val l (empty_state\<lparr>data := (\<lambda>i. 0)(0 := 7, 1 := 7, 3 := 1)\<rparr>)
             = loss_spec [7, 7] [0, 1])
   \<and> loss_spec [7, 7] [0, 1] = - ln (1 / 2 + 1 / 10000)"
proof -
  let ?m = "\<lparr>mlp_layers = [], mlp_parameters = []\<rparr>"
  let ?s = "empty_state\<lparr>next_id := 4\<rparr>"
  let ?\<sigma> = "empty_state\<lparr>data := (\<lambda>i. 0)(0 := 7, 1 := 7, 3 := 1)\<rparr>"
  let ?\<tau> = "empty_state\<lparr>data := (\<lambda>i. 0)(0 := 3, 1 := 7)\<rparr>"
  have mlp: "evalmlp ?m [Value 0, Value 1] ?s = Inr ([Value 0, Value 1], ?s)"
    by (simp add: evalmlp_def)
  have ne: "[Value 0, Value 1] \<noteq> []" by simp
  have len: "length [Value 2, Value 3] = length [Value 0, Value 1]" by simp
  from loss_of_computes[OF mlp ne len]
  obtain l s2 m shiftx exps sum_v sm
    where run: "loss_of ?m [Value 0, Value 1] [Value 2, Value 3] ?s = Inr (l, s2)"
    and fold: "is_left_fold MaxValue m [Value 0, Value 1]"
    and inside: "insert m (insert sum_v (set shiftx \<union> set exps \<union> set sm)) \<subseteq> subnodes l"
    and vm: "\<forall>\<sigma>. val m \<sigma> = fold_max (map (\<lambda>x. val x \<sigma>) [Value 0, Value 1])"
    and vs: "\<forall>\<sigma>. map (\<lambda>x. val x \<sigma>) shiftx = map (\<lambda>x. val x \<sigma> - val m \<sigma>) [Value 0, Value 1]"
    and v: "\<forall>\<sigma>. val l \<sigma> = loss_spec (map (\<lambda>x. val x \<sigma>) [Value 0, Value 1])
                              (map (\<lambda>t. val t \<sigma>) [Value 2, Value 3])"
    apply (elim exE conjE)
    subgoal premises p for l s2 m shiftx exps sum_v sm s_sm
      by (rule p(1)[OF p(2) p(4) p(9) p(10) p(11) p(16)])
    done
  have m7: "val m ?\<tau> = 7" using vm[rule_format, of ?\<tau>] by (simp add: fold_max_def)
  have sh: "map (\<lambda>x. val x ?\<tau>) shiftx = [- 4, 0]" using vs[rule_format, of ?\<tau>] m7 by simp
  have in1: "m \<in> subnodes l" and in2: "set shiftx \<subseteq> subnodes l" using inside by auto
  have lv: "val l ?\<sigma> = loss_spec [7, 7] [0, 1]" using v[rule_format, of ?\<sigma>] by simp
  have ls: "loss_spec [7, 7] [0, 1] = - ln (1 / 2 + 1 / 10000)"
    by (simp add: loss_spec_def softmax_spec_def fold_max_def)
  have "\<exists>l s2 m shiftx.
           loss_of ?m [Value 0, Value 1] [Value 2, Value 3] ?s = Inr (l, s2)
         \<and> is_left_fold MaxValue m [Value 0, Value 1]
         \<and> m \<in> subnodes l \<and> set shiftx \<subseteq> subnodes l
         \<and> val m ?\<tau> = 7
         \<and> map (\<lambda>x. val x ?\<tau>) shiftx = [- 4, 0]
         \<and> val l ?\<sigma> = loss_spec [7, 7] [0, 1]"
    apply (rule exI[of _ l], rule exI[of _ s2], rule exI[of _ m], rule exI[of _ shiftx])
    apply (intro conjI)
    apply (rule run, rule fold, rule in1, rule in2, rule m7, rule sh, rule lv)
    done
  then show ?thesis using ne ls by (intro conjI)
qed

end
